theory Spec2Isabelle
  imports Complex_Main "HOL-Library.AList" "HOL-Library.Char_ord" "HOL-Library.List_Lexorder"
    "HOL-Library.Product_Lexorder" "HOL-Library.Multiset"
begin

section \<open>Data model of \<^verbatim>\<open>ranking_engine.py\<close>\<close>

text \<open>
  Python floats are idealised as reals (no rounding, no overflow of \<^verbatim>\<open>math.exp\<close>, no
  NaN) and Python integers are unbounded integers. Every call of \<^verbatim>\<open>time.time()\<close>
  inside one operation reads the same value \<open>now\<close>, which the operation takes as an
  argument. Keyword arguments are typed: a keyword that the dataclass constructor would
  reject, or a value of the wrong type, is not an input of the model.
\<close>

record post =
  post_id :: string
  likes :: int
  comments :: int
  shares :: int
  upvotes :: int
  downvotes :: int
  timestamp :: real
  base_score :: real

text \<open>
  The keyword arguments accepted by the dataclass constructor \<^verbatim>\<open>Post(post_id=..., **kwargs)\<close>:
  each field is either supplied or left to its default.
\<close>

record post_kwargs =
  kw_likes :: "int option"
  kw_comments :: "int option"
  kw_shares :: "int option"
  kw_upvotes :: "int option"
  kw_downvotes :: "int option"
  kw_timestamp :: "real option"
  kw_base_score :: "real option"

definition no_kwargs :: post_kwargs where
  "no_kwargs = \<lparr>kw_likes = None, kw_comments = None, kw_shares = None, kw_upvotes = None,
     kw_downvotes = None, kw_timestamp = None, kw_base_score = None\<rparr>"

definition get_default :: "'a option \<Rightarrow> 'a \<Rightarrow> 'a" where
  "get_default v d = (case v of None \<Rightarrow> d | Some x \<Rightarrow> x)"

text \<open>The generated \<^verbatim>\<open>__init__\<close> with its defaults, before \<^verbatim>\<open>__post_init__\<close> runs.\<close>

definition Post_fields :: "real \<Rightarrow> string \<Rightarrow> post_kwargs \<Rightarrow> post" where
  "Post_fields now pid kw =
     \<lparr>post_id = pid,
      likes = get_default (kw_likes kw) 0,
      comments = get_default (kw_comments kw) 0,
      shares = get_default (kw_shares kw) 0,
      upvotes = get_default (kw_upvotes kw) 0,
      downvotes = get_default (kw_downvotes kw) 0,
      timestamp = get_default (kw_timestamp kw) now,
      base_score = get_default (kw_base_score kw) 0\<rparr>"

definition post_init :: "post \<Rightarrow> post" where
  "post_init p = p\<lparr>base_score := of_int (likes p + comments p * 2 + shares p * 3)\<rparr>"

definition Post :: "real \<Rightarrow> string \<Rightarrow> post_kwargs \<Rightarrow> post" where
  "Post now pid kw = post_init (Post_fields now pid kw)"

text \<open>
  One keyword argument of \<^verbatim>\<open>update_post(post_id, **kwargs)\<close>. The key \<^verbatim>\<open>post_id\<close> cannot
  occur among them, since it is bound by the named parameter. \<open>Set_other\<close> is a key
  that is not an attribute of the post.
\<close>

datatype field_assign =
    Set_likes int
  | Set_comments int
  | Set_shares int
  | Set_upvotes int
  | Set_downvotes int
  | Set_timestamp real
  | Set_base_score real
  | Set_other string

text \<open>\<^verbatim>\<open>if hasattr(post, key): setattr(post, key, value)\<close>\<close>

fun setattr_post :: "post \<Rightarrow> field_assign \<Rightarrow> post" where
  "setattr_post p (Set_likes v) = p\<lparr>likes := v\<rparr>"
| "setattr_post p (Set_comments v) = p\<lparr>comments := v\<rparr>"
| "setattr_post p (Set_shares v) = p\<lparr>shares := v\<rparr>"
| "setattr_post p (Set_upvotes v) = p\<lparr>upvotes := v\<rparr>"
| "setattr_post p (Set_downvotes v) = p\<lparr>downvotes := v\<rparr>"
| "setattr_post p (Set_timestamp v) = p\<lparr>timestamp := v\<rparr>"
| "setattr_post p (Set_base_score v) = p\<lparr>base_score := v\<rparr>"
| "setattr_post p (Set_other k) = p"

datatype error =
    ValueError_already_exists string
  | ValueError_not_found string
  | ValueError_unknown_algorithm string
  | KeyError string
  | ZeroDivisionError
  | TypeError

text \<open>
  The engine. \<open>posts\<close> is an insertion-ordered dictionary, kept as an association list
  with \<open>AList.update\<close> (an existing key keeps its place). \<open>invalidations\<close> is a ghost
  counter of the calls of \<^verbatim>\<open>_invalidate_cache\<close>; no operation reads it.
\<close>

record engine =
  posts :: "(string \<times> post) list"
  cache_size :: int
  ranking_cache :: "string \<rightharpoonup> (real \<times> string) list"
  cache_timestamps :: "string \<rightharpoonup> real"
  cache_ttl :: real
  invalidations :: nat

definition RankingEngine :: "int \<Rightarrow> engine" where
  "RankingEngine csize = \<lparr>posts = [], cache_size = csize, ranking_cache = Map.empty,
     cache_timestamps = Map.empty, cache_ttl = 60, invalidations = 0\<rparr>"

definition invalidate_cache :: "engine \<Rightarrow> engine" where
  "invalidate_cache e = e\<lparr>ranking_cache := Map.empty, cache_timestamps := Map.empty,
     invalidations := Suc (invalidations e)\<rparr>"

text \<open>
  Each operation returns what the call raised or returned, together with the engine as
  the call left it.
\<close>

definition add_post :: "real \<Rightarrow> string \<Rightarrow> post_kwargs \<Rightarrow> engine \<Rightarrow> (error + unit) \<times> engine" where
  "add_post now pid kw e =
     (if map_of (posts e) pid \<noteq> None then (Inl (ValueError_already_exists pid), e)
      else (Inr (), invalidate_cache (e\<lparr>posts := AList.update pid (Post now pid kw) (posts e)\<rparr>)))"

definition update_post :: "string \<Rightarrow> field_assign list \<Rightarrow> engine \<Rightarrow> (error + unit) \<times> engine" where
  "update_post pid kwargs e =
     (case map_of (posts e) pid of
        None \<Rightarrow> (Inl (ValueError_not_found pid), e)
      | Some p \<Rightarrow>
          (let p1 = foldl setattr_post p kwargs;
               p2 = p1\<lparr>base_score := of_int (likes p1 + comments p1 * 2 + shares p1 * 3)\<rparr>
           in (Inr (), invalidate_cache (e\<lparr>posts := AList.update pid p2 (posts e)\<rparr>))))"

text \<open>
  An element of \<^verbatim>\<open>posts_data\<close>: the \<^verbatim>\<open>post_id\<close> popped from the dictionary and the
  remaining keyword arguments.
\<close>

definition batch_insert :: "real \<Rightarrow> (string \<times> post) list \<Rightarrow> string \<times> post_kwargs \<Rightarrow> (string \<times> post) list" where
  "batch_insert now ps d = AList.update (fst d) (Post now (fst d) (snd d)) ps"

definition batch_add_posts :: "real \<Rightarrow> (string \<times> post_kwargs) list \<Rightarrow> engine \<Rightarrow> (error + unit) \<times> engine" where
  "batch_add_posts now posts_data e =
     (Inr (), invalidate_cache (e\<lparr>posts := foldl (batch_insert now) (posts e) posts_data\<rparr>))"

definition is_cache_valid :: "real \<Rightarrow> string \<Rightarrow> engine \<Rightarrow> bool" where
  "is_cache_valid now algorithm e =
     (case cache_timestamps e algorithm of
        None \<Rightarrow> False
      | Some t \<Rightarrow> now - t < cache_ttl e)"

section \<open>Scoring algorithms\<close>

text \<open>Python's \<^verbatim>\<open>round(x, 7)\<close>: to the nearest multiple of \<open>10\<^sup>-\<^sup>7\<close>, halves to even.\<close>

definition round_half_even :: "real \<Rightarrow> int" where
  "round_half_even x =
     (let f = \<lfloor>x\<rfloor>; d = x - of_int f
      in if d < 1 / 2 then f else if 1 / 2 < d then f + 1 else if even f then f else f + 1)"

definition round7 :: "real \<Rightarrow> real" where
  "round7 x = of_int (round_half_even (x * 10 ^ 7)) / 10 ^ 7"

definition hot_score :: "real \<Rightarrow> post \<Rightarrow> real" where
  "hot_score now p =
     (let order = log 10 (of_int (max \<bar>upvotes p - downvotes p\<bar> 1));
          sign = (if upvotes p - downvotes p > 0 then 1
                  else if upvotes p - downvotes p < 0 then - 1 else 0);
          seconds = now - timestamp p - 1134028003
      in round7 (sign * order + seconds / 45000))"

definition engagement_score :: "real \<Rightarrow> post \<Rightarrow> error + real" where
  "engagement_score now p =
     (let total_engagement = likes p + comments p * 2 + shares p * 3;
          time_factor = now - timestamp p + 1
      in if time_factor = 0 then Inl ZeroDivisionError
         else Inr (of_int total_engagement / time_factor))"

definition time_decay_score :: "real \<Rightarrow> post \<Rightarrow> real \<Rightarrow> real" where
  "time_decay_score now p decay_rate =
     (let time_elapsed = now - timestamp p
      in base_score p * exp (- decay_rate * time_elapsed))"

text \<open>Subscription \<^verbatim>\<open>weights[k]\<close> of a dictionary raises \<^verbatim>\<open>KeyError\<close> on a missing key.\<close>

definition getitem :: "(string \<rightharpoonup> real) \<Rightarrow> string \<Rightarrow> error + real" where
  "getitem d k = (case d k of None \<Rightarrow> Inl (KeyError k) | Some v \<Rightarrow> Inr v)"

definition default_weights :: "string \<rightharpoonup> real" where
  "default_weights = [''likes'' \<mapsto> 1, ''comments'' \<mapsto> 2, ''shares'' \<mapsto> 3, ''time_decay'' \<mapsto> 1 / 10]"

definition hybrid_score :: "real \<Rightarrow> post \<Rightarrow> (string \<rightharpoonup> real) option \<Rightarrow> error + real" where
  "hybrid_score now p weights =
     (let w = (case weights of None \<Rightarrow> default_weights | Some d \<Rightarrow> d)
      in case getitem w ''likes'' of Inl err \<Rightarrow> Inl err | Inr wl \<Rightarrow>
         (case getitem w ''comments'' of Inl err \<Rightarrow> Inl err | Inr wc \<Rightarrow>
         (case getitem w ''shares'' of Inl err \<Rightarrow> Inl err | Inr ws \<Rightarrow>
           (let engagement = of_int (likes p) * wl + of_int (comments p) * wc + of_int (shares p) * ws;
                time_elapsed = now - timestamp p
            in case getitem w ''time_decay'' of Inl err \<Rightarrow> Inl err | Inr wt \<Rightarrow>
                 Inr (engagement * exp (- wt * time_elapsed))))))"

text \<open>The keyword arguments that the ranking entry points pass on to the scorers.\<close>

record score_kwargs =
  decay_rate :: "real option"
  weights :: "(string \<rightharpoonup> real) option"

definition no_params :: score_kwargs where
  "no_params = \<lparr>decay_rate = None, weights = None\<rparr>"

text \<open>The dispatch in the loop body of \<^verbatim>\<open>RankingEngine._calculate_scores\<close>.\<close>

definition score_of :: "real \<Rightarrow> string \<Rightarrow> score_kwargs \<Rightarrow> post \<Rightarrow> error + real" where
  "score_of now algorithm kwargs p =
     (if algorithm = ''hot_score'' then Inr (hot_score now p)
      else if algorithm = ''engagement_score'' then engagement_score now p
      else if algorithm = ''time_decay'' then
        Inr (time_decay_score now p (get_default (decay_rate kwargs) (1 / 100)))
      else if algorithm = ''hybrid'' then hybrid_score now p (weights kwargs)
      else Inl (ValueError_unknown_algorithm algorithm))"

fun calculate_scores_loop ::
  "real \<Rightarrow> string \<Rightarrow> score_kwargs \<Rightarrow> (string \<times> post) list \<Rightarrow> (real \<times> string) list
     \<Rightarrow> error + (real \<times> string) list" where
  "calculate_scores_loop now algorithm kwargs [] scores = Inr scores"
| "calculate_scores_loop now algorithm kwargs ((pid, p) # rest) scores =
     (case score_of now algorithm kwargs p of
        Inl err \<Rightarrow> Inl err
      | Inr score \<Rightarrow> calculate_scores_loop now algorithm kwargs rest (scores @ [(score, pid)]))"

definition calculate_scores :: "real \<Rightarrow> string \<Rightarrow> score_kwargs \<Rightarrow> engine \<Rightarrow> error + (real \<times> string) list" where
  "calculate_scores now algorithm kwargs e = calculate_scores_loop now algorithm kwargs (posts e) []"

text \<open>
  \<^verbatim>\<open>scores.sort(reverse=True)\<close> on tuples \<open>(score, post_id)\<close>: tuples compare
  lexicographically, strings by code points; the sort is stable.
\<close>

definition sort_reverse :: "(real \<times> string) list \<Rightarrow> (real \<times> string) list" where
  "sort_reverse xs = rev (sort_key (\<lambda>x. x) (rev xs))"

text \<open>The slice \<^verbatim>\<open>xs[:limit]\<close>; a negative limit counts from the end.\<close>

definition slice_to :: "int \<Rightarrow> 'a list \<Rightarrow> 'a list" where
  "slice_to limit xs =
     (if 0 \<le> limit then take (nat limit) xs else take (nat (int (length xs) + limit)) xs)"

record ranked_entry =
  r_rank :: nat
  r_post_id :: string
  r_score :: real
  r_likes :: int
  r_comments :: int
  r_shares :: int
  r_upvotes :: int
  r_downvotes :: int
  r_timestamp :: real
  r_age_hours :: real

fun build_result ::
  "real \<Rightarrow> (string \<times> post) list \<Rightarrow> nat \<Rightarrow> (real \<times> string) list \<Rightarrow> error + ranked_entry list" where
  "build_result now ps rank [] = Inr []"
| "build_result now ps rank ((score, pid) # rest) =
     (case map_of ps pid of
        None \<Rightarrow> Inl (KeyError pid)
      | Some p \<Rightarrow>
          (case build_result now ps (Suc rank) rest of
             Inl err \<Rightarrow> Inl err
           | Inr result \<Rightarrow>
               Inr (\<lparr>r_rank = rank, r_post_id = pid, r_score = score, r_likes = likes p,
                      r_comments = comments p, r_shares = shares p, r_upvotes = upvotes p,
                      r_downvotes = downvotes p, r_timestamp = timestamp p,
                      r_age_hours = (now - timestamp p) / 3600\<rparr> # result)))"

definition get_ranked_posts ::
  "real \<Rightarrow> string \<Rightarrow> int \<Rightarrow> score_kwargs \<Rightarrow> engine \<Rightarrow> (error + ranked_entry list) \<times> engine" where
  "get_ranked_posts now algorithm limit kwargs e =
     (if is_cache_valid now algorithm e then
        (case ranking_cache e algorithm of
           None \<Rightarrow> (Inl (KeyError algorithm), e)
         | Some cached_scores \<Rightarrow> (build_result now (posts e) 1 (slice_to limit cached_scores), e))
      else
        (case calculate_scores now algorithm kwargs e of
           Inl err \<Rightarrow> (Inl err, e)
         | Inr scores0 \<Rightarrow>
             (let scores = sort_reverse scores0;
                  e1 = e\<lparr>ranking_cache := (ranking_cache e)(algorithm \<mapsto> scores),
                         cache_timestamps := (cache_timestamps e)(algorithm \<mapsto> now)\<rparr>
              in (build_result now (posts e1) 1 (slice_to limit scores), e1))))"

section \<open>The streaming selector of \<^verbatim>\<open>streaming_ranking_engine.py\<close>\<close>

text \<open>The dispatch of \<^verbatim>\<open>StreamingRankingEngine._calculate_score\<close>.\<close>

definition calculate_score :: "real \<Rightarrow> post \<Rightarrow> string \<Rightarrow> score_kwargs \<Rightarrow> error + real" where
  "calculate_score now p algorithm kwargs =
     (if algorithm = ''hot_score'' then Inr (hot_score now p)
      else if algorithm = ''engagement_score'' then engagement_score now p
      else if algorithm = ''time_decay'' then
        Inr (time_decay_score now p (get_default (decay_rate kwargs) (1 / 100)))
      else if algorithm = ''hybrid'' then hybrid_score now p (weights kwargs)
      else Inl (ValueError_unknown_algorithm algorithm))"

type_synonym entry = "real \<times> post"

text \<open>
  The comparison \<^verbatim>\<open>a < b\<close> of two tuples \<^verbatim>\<open>(score, post)\<close>. Python looks for the first
  position where the tuples differ (by \<^verbatim>\<open>==\<close>) and compares there with \<^verbatim>\<open><\<close>. The
  dataclass \<^verbatim>\<open>Post\<close> has the generated field-wise \<^verbatim>\<open>__eq__\<close> and no \<^verbatim>\<open>__lt__\<close>, so
  comparing two unequal posts raises \<^verbatim>\<open>TypeError\<close>.
\<close>

definition entry_lt :: "entry \<Rightarrow> entry \<Rightarrow> error + bool" where
  "entry_lt a b =
     (if fst a \<noteq> fst b then Inr (fst a < fst b)
      else if snd a = snd b then Inr False
      else Inl TypeError)"

text \<open>
  The functions of the standard module \<^verbatim>\<open>heapq\<close> that the selector calls, on a list
  used as a binary heap: \<^verbatim>\<open>_siftdown\<close>, \<^verbatim>\<open>_siftup\<close>, \<^verbatim>\<open>heappush\<close> and
  \<^verbatim>\<open>heappushpop\<close>. Every index read below is inside the list.
\<close>

function siftdown_loop :: "entry list \<Rightarrow> nat \<Rightarrow> entry \<Rightarrow> nat \<Rightarrow> error + entry list" where
  "siftdown_loop heap startpos newitem pos =
     (if startpos < pos then
        (let parentpos = (pos - 1) div 2;
             parent = heap ! parentpos
         in case entry_lt newitem parent of
              Inl err \<Rightarrow> Inl err
            | Inr lt \<Rightarrow>
                if lt then siftdown_loop (heap[pos := parent]) startpos newitem parentpos
                else Inr (heap[pos := newitem]))
      else Inr (heap[pos := newitem]))"
  by pat_completeness auto
termination
  by (relation "measure (\<lambda>(heap, startpos, newitem, pos). pos)") auto

definition siftdown :: "entry list \<Rightarrow> nat \<Rightarrow> nat \<Rightarrow> error + entry list" where
  "siftdown heap startpos pos = siftdown_loop heap startpos (heap ! pos) pos"

function siftup_loop :: "entry list \<Rightarrow> nat \<Rightarrow> error + entry list \<times> nat" where
  "siftup_loop heap pos =
     (let endpos = length heap;
          childpos = 2 * pos + 1
      in if childpos < endpos then
           (let rightpos = childpos + 1
            in if rightpos < endpos then
                 (case entry_lt (heap ! childpos) (heap ! rightpos) of
                    Inl err \<Rightarrow> Inl err
                  | Inr lt \<Rightarrow>
                      (let c = (if \<not> lt then rightpos else childpos)
                       in siftup_loop (heap[pos := heap ! c]) c))
               else siftup_loop (heap[pos := heap ! childpos]) childpos)
         else Inr (heap, pos))"
  by pat_completeness auto
termination
  by (relation "measure (\<lambda>(heap, pos). length heap - pos)") auto

definition siftup :: "entry list \<Rightarrow> nat \<Rightarrow> error + entry list" where
  "siftup heap pos =
     (let newitem = heap ! pos
      in case siftup_loop heap pos of
           Inl err \<Rightarrow> Inl err
         | Inr (heap1, pos1) \<Rightarrow> siftdown_loop heap1 pos newitem pos1)"

definition heappush :: "entry list \<Rightarrow> entry \<Rightarrow> error + entry list" where
  "heappush heap item = siftdown (heap @ [item]) 0 (length heap)"

text \<open>\<^verbatim>\<open>heappushpop\<close> returns the item pushed out and leaves the heap updated.\<close>

definition heappushpop :: "entry list \<Rightarrow> entry \<Rightarrow> error + entry \<times> entry list" where
  "heappushpop heap item =
     (if heap \<noteq> [] then
        (case entry_lt (heap ! 0) item of
           Inl err \<Rightarrow> Inl err
         | Inr lt \<Rightarrow>
             if lt then
               (case siftup (heap[0 := item]) 0 of
                  Inl err \<Rightarrow> Inl err
                | Inr heap1 \<Rightarrow> Inr (heap ! 0, heap1))
             else Inr (item, heap))
      else Inr (item, heap))"

text \<open>
  \<^verbatim>\<open>sorted(min_heap, reverse=True)\<close>. The sort is stable and compares with \<^verbatim>\<open><\<close> only;
  a correct comparison sort has to compare any two elements that end up next to each
  other, so it raises exactly when the list holds two entries of equal score with
  unequal posts.
\<close>

definition comparable :: "entry \<Rightarrow> entry \<Rightarrow> bool" where
  "comparable a b = (fst a \<noteq> fst b \<or> snd a = snd b)"

definition sorted_reverse :: "entry list \<Rightarrow> error + entry list" where
  "sorted_reverse xs =
     (if list_all (\<lambda>a. list_all (comparable a) xs) xs then Inr (rev (sort_key fst (rev xs)))
      else Inl TypeError)"

record streaming_engine =
  batch_size :: int
  max_heap_size :: int

definition StreamingRankingEngine :: "int \<Rightarrow> int \<Rightarrow> streaming_engine" where
  "StreamingRankingEngine bs mhs = \<lparr>batch_size = bs, max_heap_size = mhs\<rparr>"

record streaming_result =
  top_posts :: "entry list"
  total_posts_processed :: nat
  res_algorithm :: string
  res_batch_size :: int

text \<open>The loop \<^verbatim>\<open>for post in batch\<close>: score the post, then push it on the bounded heap.\<close>

fun process_batch ::
  "real \<Rightarrow> string \<Rightarrow> int \<Rightarrow> score_kwargs \<Rightarrow> entry list \<Rightarrow> post list \<Rightarrow> error + entry list" where
  "process_batch now algorithm top_k kwargs min_heap [] = Inr min_heap"
| "process_batch now algorithm top_k kwargs min_heap (p # rest) =
     (case calculate_score now p algorithm kwargs of
        Inl err \<Rightarrow> Inl err
      | Inr score \<Rightarrow>
          (if int (length min_heap) < top_k then
             (case heappush min_heap (score, p) of
                Inl err \<Rightarrow> Inl err
              | Inr h \<Rightarrow> process_batch now algorithm top_k kwargs h rest)
           else
             (case heappushpop min_heap (score, p) of
                Inl err \<Rightarrow> Inl err
              | Inr (out, h) \<Rightarrow> process_batch now algorithm top_k kwargs h rest)))"

text \<open>
  The loop \<^verbatim>\<open>while True\<close>: the iterator is the list of the posts it will still yield;
  a batch takes up to \<open>batch_size\<close> of them (\<^verbatim>\<open>range\<close> of a negative number is empty).
\<close>

function stream_loop ::
  "streaming_engine \<Rightarrow> real \<Rightarrow> string \<Rightarrow> int \<Rightarrow> score_kwargs \<Rightarrow> entry list \<Rightarrow> nat \<Rightarrow> nat \<Rightarrow> post list
     \<Rightarrow> error + entry list \<times> nat \<times> nat" where
  "stream_loop self now algorithm top_k kwargs min_heap total_posts batch_count post_iterator =
     (let batch = take (nat (batch_size self)) post_iterator
      in if batch = [] then Inr (min_heap, total_posts, batch_count)
         else
           (case process_batch now algorithm top_k kwargs min_heap batch of
              Inl err \<Rightarrow> Inl err
            | Inr h \<Rightarrow>
                stream_loop self now algorithm top_k kwargs h (total_posts + length batch)
                  (batch_count + 1) (drop (nat (batch_size self)) post_iterator)))"
  by pat_completeness auto
termination
  by (relation "measure (\<lambda>(self, now, algorithm, top_k, kwargs, min_heap, total_posts, batch_count, it). length it)")
    auto

definition rank_posts_streaming ::
  "streaming_engine \<Rightarrow> real \<Rightarrow> post list \<Rightarrow> string \<Rightarrow> int \<Rightarrow> score_kwargs \<Rightarrow> error + streaming_result" where
  "rank_posts_streaming self now post_iterator algorithm top_k kwargs =
     (case stream_loop self now algorithm top_k kwargs [] 0 0 post_iterator of
        Inl err \<Rightarrow> Inl err
      | Inr (min_heap, total_posts, batch_count) \<Rightarrow>
          (case sorted_reverse min_heap of
             Inl err \<Rightarrow> Inl err
           | Inr tp \<Rightarrow>
               Inr \<lparr>top_posts = tp, total_posts_processed = total_posts,
                    res_algorithm = algorithm, res_batch_size = batch_size self\<rparr>))"

section \<open>Reachable engine states and their invariants\<close>

text \<open>The states an engine can be in: the constructor, then any sequence of public calls.\<close>

inductive reachable :: "engine \<Rightarrow> bool" where
  init: "reachable (RankingEngine csize)"
| add: "reachable e \<Longrightarrow> reachable (snd (add_post now pid kw e))"
| update: "reachable e \<Longrightarrow> reachable (snd (update_post pid kwargs e))"
| batch: "reachable e \<Longrightarrow> reachable (snd (batch_add_posts now posts_data e))"
| ranked: "reachable e \<Longrightarrow> reachable (snd (get_ranked_posts now algorithm limit skw e))"

definition base_ok :: "post \<Rightarrow> bool" where
  "base_ok p = (base_score p = of_int (likes p + 2 * comments p + 3 * shares p))"

definition store_ok :: "(string \<times> post) list \<Rightarrow> bool" where
  "store_ok ps = (distinct (map fst ps) \<and> (\<forall>k p. map_of ps k = Some p \<longrightarrow> post_id p = k \<and> base_ok p))"

text \<open>The value a field has after a list of assignments to it, the last one winning.\<close>

definition final_value :: "'a \<Rightarrow> 'a list \<Rightarrow> 'a" where
  "final_value old supplied = (if supplied = [] then old else last supplied)"

text \<open>An engine holding one post, \<^verbatim>\<open>add_post('a', likes=100)\<close> at time 0.\<close>

definition demo_engine :: engine where
  "demo_engine = snd (add_post 0 ''a'' (no_kwargs\<lparr>kw_likes := Some 100\<rparr>) (RankingEngine 10000))"

text \<open>Two posts that differ in their id only, and so have the same score.\<close>

definition post_a :: post where
  "post_a = Post 0 ''a'' (no_kwargs\<lparr>kw_likes := Some 10\<rparr>)"

definition post_b :: post where
  "post_b = Post 0 ''b'' (no_kwargs\<lparr>kw_likes := Some 10\<rparr>)"

text \<open>
  Every cached ranking is in descending order of score and ranks exactly the stored ids.
\<close>

definition cache_ok :: "engine \<Rightarrow> bool" where
  "cache_ok e = (\<forall>alg t. cache_timestamps e alg = Some t \<longrightarrow>
     (\<exists>xs. ranking_cache e alg = Some xs \<and> sorted_wrt (\<lambda>a b. b \<le> a) (map fst xs) \<and>
        mset (map snd xs) = mset (map fst (posts e))))"

text \<open>Engines used as concrete inputs: two posts; a cached ranking; an update after it.\<close>

definition demo_engine2 :: engine where
  "demo_engine2 = snd (add_post 0 ''b'' (no_kwargs\<lparr>kw_likes := Some 50\<rparr>) demo_engine)"

definition demo_cached :: engine where
  "demo_cached = snd (get_ranked_posts 0 ''engagement_score'' 100 no_params demo_engine)"

definition demo_updated :: engine where
  "demo_updated = snd (update_post ''a'' [Set_likes 200] demo_cached)"

section \<open>Invariants of the bounded heap\<close>

text \<open>The list is a binary min-heap on the scores: no entry is below its parent.\<close>

definition heap_inv :: "entry list \<Rightarrow> bool" where
  "heap_inv h = (\<forall>i. 0 < i \<and> i < length h \<longrightarrow> fst (h ! ((i - 1) div 2)) \<le> fst (h ! i))"

text \<open>No two different entries of the set have the same score.\<close>

definition score_inj :: "entry set \<Rightarrow> bool" where
  "score_inj S = (\<forall>a\<in>S. \<forall>b\<in>S. fst a = fst b \<longrightarrow> a = b)"

text \<open>
  The state of \<^verbatim>\<open>_siftdown\<close>: position \<open>pos\<close> is a hole waiting for \<open>newitem\<close>; the
  heap order holds between all other positions, \<open>newitem\<close> is not above the children of
  the hole, and neither is the parent of the hole.
\<close>

definition hole_inv :: "entry list \<Rightarrow> entry \<Rightarrow> nat \<Rightarrow> bool" where
  "hole_inv h newitem pos =
     (pos < length h \<and>
      (\<forall>i. 0 < i \<and> i < length h \<and> i \<noteq> pos \<and> (i - 1) div 2 \<noteq> pos \<longrightarrow>
           fst (h ! ((i - 1) div 2)) \<le> fst (h ! i)) \<and>
      (\<forall>c. 0 < c \<and> c < length h \<and> (c - 1) div 2 = pos \<longrightarrow>
           fst newitem \<le> fst (h ! c) \<and> (0 < pos \<longrightarrow> fst (h ! ((pos - 1) div 2)) \<le> fst (h ! c))))"

text \<open>
  The state of the loop of \<^verbatim>\<open>_siftup\<close>: the heap order holds on every edge that does
  not start at \<open>pos\<close>, and the parent of \<open>pos\<close> is not above the children of \<open>pos\<close>.
\<close>

definition down_inv :: "entry list \<Rightarrow> nat \<Rightarrow> bool" where
  "down_inv h pos =
     (pos < length h \<and>
      (\<forall>i. 0 < i \<and> i < length h \<and> (i - 1) div 2 \<noteq> pos \<longrightarrow>
           fst (h ! ((i - 1) div 2)) \<le> fst (h ! i)) \<and>
      (\<forall>c. 0 < c \<and> c < length h \<and> (c - 1) div 2 = pos \<and> 0 < pos \<longrightarrow>
           fst (h ! ((pos - 1) div 2)) \<le> fst (h ! c)))"

text \<open>
  The heap holds the \<open>K\<close> best entries of the multiset \<open>X\<close> consumed so far: the rest
  \<open>R\<close> of \<open>X\<close> scores no higher than any entry of the heap, and the heap is full
  unless nothing has been left out.
\<close>

definition topk_inv :: "nat \<Rightarrow> entry list \<Rightarrow> entry multiset \<Rightarrow> bool" where
  "topk_inv K heap X =
     (\<exists>R. mset heap + R = X \<and> (\<forall>b\<in>set heap. \<forall>r\<in>#R. fst r \<le> fst b) \<and>
          (length heap = K \<or> R = {#} \<and> length heap < K))"

text \<open>
  Scoring the full sequence with \<^verbatim>\<open>_calculate_score\<close>, one \<^verbatim>\<open>(score, post)\<close> tuple for
  each post, in order.
\<close>

fun score_all :: "real \<Rightarrow> string \<Rightarrow> score_kwargs \<Rightarrow> post list \<Rightarrow> error + entry list" where
  "score_all now algorithm kwargs [] = Inr []"
| "score_all now algorithm kwargs (p # rest) =
     (case calculate_score now p algorithm kwargs of
        Inl err \<Rightarrow> Inl err
      | Inr score \<Rightarrow>
          (case score_all now algorithm kwargs rest of
             Inl err \<Rightarrow> Inl err
           | Inr es \<Rightarrow> Inr ((score, p) # es)))"

text \<open>The stable sort in descending order of score, \<^verbatim>\<open>sorted(es, reverse=True)\<close>.\<close>

definition sort_desc :: "entry list \<Rightarrow> entry list" where
  "sort_desc es = rev (sort_key fst (rev es))"

section \<open>Properties of the item store\<close>

lemma base_ok_Post: "base_ok (Post now pid kw)"
  by (simp add: base_ok_def Post_def post_init_def)

lemma post_id_Post: "post_id (Post now pid kw) = pid"
  by (simp add: Post_def post_init_def Post_fields_def)

lemma store_ok_update:
  "store_ok ps \<Longrightarrow> post_id p = k \<Longrightarrow> base_ok p \<Longrightarrow> store_ok (AList.update k p ps)"
  unfolding store_ok_def by (simp add: distinct_update update_conv')

lemma post_id_setattr: "post_id (setattr_post p a) = post_id p"
  by (cases a) simp_all

lemma post_id_foldl_setattr: "post_id (foldl setattr_post p fs) = post_id p"
  by (induction fs arbitrary: p) (simp_all add: post_id_setattr)

lemma store_ok_lookup: "store_ok ps \<Longrightarrow> map_of ps k = Some p \<Longrightarrow> post_id p = k \<and> base_ok p"
  unfolding store_ok_def by blast

lemma store_ok_batch: "store_ok ps \<Longrightarrow> store_ok (foldl (batch_insert now) ps pd)"
  by (induction pd arbitrary: ps) (simp_all add: batch_insert_def store_ok_update base_ok_Post post_id_Post)

lemma posts_get_ranked: "posts (snd (get_ranked_posts now algorithm limit skw e)) = posts e"
  by (simp add: get_ranked_posts_def Let_def split: option.splits sum.splits)

lemma reachable_store_ok: "reachable e \<Longrightarrow> store_ok (posts e)"
proof (induction rule: reachable.induct)
  case (init csize)
  show ?case by (simp add: RankingEngine_def store_ok_def)
next
  case (add e now pid kw)
  then show ?case
    by (simp add: add_post_def invalidate_cache_def store_ok_update base_ok_Post post_id_Post)
next
  case (update e pid kwargs)
  show ?case
  proof (cases "map_of (posts e) pid")
    case None
    with update show ?thesis by (simp add: update_post_def)
  next
    case (Some p)
    with update have "post_id p = pid" using store_ok_lookup by blast
    with Some update show ?thesis
      by (simp add: update_post_def Let_def invalidate_cache_def store_ok_update
          base_ok_def post_id_foldl_setattr)
  qed
next
  case (batch e now posts_data)
  then show ?case by (simp add: batch_add_posts_def invalidate_cache_def store_ok_batch)
next
  case (ranked e now algorithm limit skw)
  then show ?case by (simp add: posts_get_ranked)
qed

text \<open>
  Claim C3. In every state the engine can reach, each stored post has
  \<open>base_score = likes + 2 * comments + 3 * shares\<close> of its current counters: the
  constructor computes it in \<^verbatim>\<open>__post_init__\<close> whatever \<^verbatim>\<open>base_score\<close> was passed,
  and \<^verbatim>\<open>update_post\<close> recomputes it after the assignments, whatever they were.
\<close>

theorem base_score_invariant:
  assumes "reachable e" and "map_of (posts e) pid = Some p"
  shows "base_score p = of_int (likes p + 2 * comments p + 3 * shares p)"
  using store_ok_lookup[OF reachable_store_ok[OF assms(1)] assms(2)] by (simp add: base_ok_def)

theorem base_score_invariant_witness:
  "reachable (snd (update_post ''a'' [Set_base_score 5, Set_likes 7]
       (snd (add_post 0 ''a'' (no_kwargs\<lparr>kw_comments := Some 2, kw_base_score := Some 999\<rparr>)
         (RankingEngine 10000))))) \<and>
   map (\<lambda>(k, p). (likes p, comments p, shares p, base_score p))
     (posts (snd (update_post ''a'' [Set_base_score 5, Set_likes 7]
       (snd (add_post 0 ''a'' (no_kwargs\<lparr>kw_comments := Some 2, kw_base_score := Some 999\<rparr>)
         (RankingEngine 10000)))))) = [(7, 2, 0, 11)]"
proof -
  let ?e = "snd (update_post ''a'' [Set_base_score 5, Set_likes 7]
       (snd (add_post 0 ''a'' (no_kwargs\<lparr>kw_comments := Some 2, kw_base_score := Some 999\<rparr>)
         (RankingEngine 10000))))"
  let ?p = "\<lparr>post_id = ''a'', likes = 7, comments = 2, shares = 0, upvotes = 0, downvotes = 0,
     timestamp = 0, base_score = 11\<rparr>"
  have r: "reachable ?e"
    by (intro reachable.intros)
  have ps: "posts ?e = [(''a'', ?p)]"
    by (simp add: update_post_def add_post_def RankingEngine_def invalidate_cache_def Let_def
        Post_def post_init_def Post_fields_def no_kwargs_def get_default_def)
  have m: "map_of (posts ?e) ''a'' = Some ?p"
    by (simp add: ps)
  show ?thesis
    using r base_score_invariant[OF r m] by (simp add: ps)
qed

text \<open>
  Claim C5. \<^verbatim>\<open>add_post\<close> with an id already stored raises the \<^verbatim>\<open>ValueError\<close>
  "already exists", \<^verbatim>\<open>update_post\<close> with an id not stored raises the \<^verbatim>\<open>ValueError\<close>
  "not found", and in both cases the engine (its posts and its cache) is left exactly
  as it was.
\<close>

theorem failed_add_update_keep_state:
  "(map_of (posts e) pid \<noteq> None \<longrightarrow> add_post now pid kw e = (Inl (ValueError_already_exists pid), e)) \<and>
   (map_of (posts e) pid = None \<longrightarrow> update_post pid kwargs e = (Inl (ValueError_not_found pid), e))"
  by (auto simp: add_post_def update_post_def)

lemma demo_posts: "posts demo_engine = [(''a'', Post 0 ''a'' (no_kwargs\<lparr>kw_likes := Some 100\<rparr>))]"
  by (simp add: demo_engine_def add_post_def RankingEngine_def invalidate_cache_def)

theorem failed_add_update_keep_state_witness:
  "map_of (posts demo_engine) ''a'' \<noteq> None \<and>
   add_post 5 ''a'' no_kwargs demo_engine = (Inl (ValueError_already_exists ''a''), demo_engine) \<and>
   map_of (posts demo_engine) ''b'' = None \<and>
   update_post ''b'' [Set_likes 3] demo_engine = (Inl (ValueError_not_found ''b''), demo_engine)"
  using failed_add_update_keep_state[of demo_engine "''a''" 5 no_kwargs "[Set_likes 3]"]
    failed_add_update_keep_state[of demo_engine "''b''" 5 no_kwargs "[Set_likes 3]"]
  by (simp add: demo_posts)

lemma map_of_batch_insert:
  "map_of (batch_insert now ps d) = (map_of ps)(fst d \<mapsto> Post now (fst d) (snd d))"
  by (simp add: batch_insert_def update_conv')

lemma map_of_foldl_batch:
  "map_of (foldl (batch_insert now) ps pd) k =
     (case map_of (rev pd) k of None \<Rightarrow> map_of ps k | Some kw \<Rightarrow> Some (Post now k kw))"
proof (induction pd arbitrary: ps)
  case Nil
  show ?case by simp
next
  case (Cons d pd)
  show ?case
    by (cases d) (simp add: Cons map_of_batch_insert map_add_def split: option.splits)
qed

text \<open>
  Claim C6. \<^verbatim>\<open>batch_add_posts\<close> never rejects an item: afterwards each id of the batch
  holds the post built from the last item of the batch with that id, field by field
  (the counters of that item, zero where it gives none; its timestamp, or the current
  time; the score recomputed from its counters), every other id holds what it held, and
  the cache has been invalidated exactly once. \<^verbatim>\<open>add_post\<close> on an id already stored
  is rejected instead.
\<close>

theorem batch_add_overwrites_once:
  "fst (batch_add_posts now posts_data e) = Inr () \<and>
   (map_of (posts e) k \<noteq> None \<longrightarrow> fst (add_post now k kw' e) = Inl (ValueError_already_exists k)) \<and>
   map_of (posts (snd (batch_add_posts now posts_data e))) k =
     (case map_of (rev posts_data) k of
        None \<Rightarrow> map_of (posts e) k
      | Some kw \<Rightarrow>
          Some \<lparr>post_id = k,
                likes = (case kw_likes kw of None \<Rightarrow> 0 | Some v \<Rightarrow> v),
                comments = (case kw_comments kw of None \<Rightarrow> 0 | Some v \<Rightarrow> v),
                shares = (case kw_shares kw of None \<Rightarrow> 0 | Some v \<Rightarrow> v),
                upvotes = (case kw_upvotes kw of None \<Rightarrow> 0 | Some v \<Rightarrow> v),
                downvotes = (case kw_downvotes kw of None \<Rightarrow> 0 | Some v \<Rightarrow> v),
                timestamp = (case kw_timestamp kw of None \<Rightarrow> now | Some v \<Rightarrow> v),
                base_score =
                  of_int ((case kw_likes kw of None \<Rightarrow> 0 | Some v \<Rightarrow> v)
                    + (case kw_comments kw of None \<Rightarrow> 0 | Some v \<Rightarrow> v) * 2
                    + (case kw_shares kw of None \<Rightarrow> 0 | Some v \<Rightarrow> v) * 3)\<rparr>) \<and>
   invalidations (snd (batch_add_posts now posts_data e)) = invalidations e + 1 \<and>
   ranking_cache (snd (batch_add_posts now posts_data e)) = Map.empty \<and>
   cache_timestamps (snd (batch_add_posts now posts_data e)) = Map.empty"
  by (simp add: batch_add_posts_def invalidate_cache_def map_of_foldl_batch add_post_def
      Post_def post_init_def Post_fields_def get_default_def split: option.splits)

theorem batch_add_overwrites_once_witness:
  "map_of (posts demo_engine) ''a'' \<noteq> None \<and>
   map (\<lambda>(k, p). (k, likes p, timestamp p)) (posts demo_engine) = [(''a'', 100, 0)] \<and>
   fst (add_post 1 ''a'' no_kwargs demo_engine) = Inl (ValueError_already_exists ''a'') \<and>
   fst (batch_add_posts 1 [(''a'', no_kwargs\<lparr>kw_likes := Some 1\<rparr>), (''a'', no_kwargs\<lparr>kw_likes := Some 99\<rparr>)]
     demo_engine) = Inr () \<and>
   map_of (posts (snd (batch_add_posts 1
     [(''a'', no_kwargs\<lparr>kw_likes := Some 1\<rparr>), (''a'', no_kwargs\<lparr>kw_likes := Some 99\<rparr>)] demo_engine))) ''a''
     = Some \<lparr>post_id = ''a'', likes = 99, comments = 0, shares = 0, upvotes = 0, downvotes = 0,
             timestamp = 1, base_score = 99\<rparr> \<and>
   invalidations (snd (batch_add_posts 1
     [(''a'', no_kwargs\<lparr>kw_likes := Some 1\<rparr>), (''a'', no_kwargs\<lparr>kw_likes := Some 99\<rparr>)] demo_engine))
     = invalidations demo_engine + 1"
  using batch_add_overwrites_once[of 1
      "[(''a'', no_kwargs\<lparr>kw_likes := Some 1\<rparr>), (''a'', no_kwargs\<lparr>kw_likes := Some 99\<rparr>)]"
      demo_engine "''a''" no_kwargs]
  by (simp add: demo_posts no_kwargs_def Post_def post_init_def Post_fields_def get_default_def)

lemma foldl_setattr_fields:
  "likes (foldl setattr_post p fs) = final_value (likes p) [v. Set_likes v \<leftarrow> fs]"
  "comments (foldl setattr_post p fs) = final_value (comments p) [v. Set_comments v \<leftarrow> fs]"
  "shares (foldl setattr_post p fs) = final_value (shares p) [v. Set_shares v \<leftarrow> fs]"
  "upvotes (foldl setattr_post p fs) = final_value (upvotes p) [v. Set_upvotes v \<leftarrow> fs]"
  "downvotes (foldl setattr_post p fs) = final_value (downvotes p) [v. Set_downvotes v \<leftarrow> fs]"
  "timestamp (foldl setattr_post p fs) = final_value (timestamp p) [v. Set_timestamp v \<leftarrow> fs]"
proof (induction fs rule: rev_induct)
  case Nil
  {
    case 1 show ?case by (simp add: final_value_def)
  next
    case 2 show ?case by (simp add: final_value_def)
  next
    case 3 show ?case by (simp add: final_value_def)
  next
    case 4 show ?case by (simp add: final_value_def)
  next
    case 5 show ?case by (simp add: final_value_def)
  next
    case 6 show ?case by (simp add: final_value_def)
  }
next
  case (snoc a fs)
  {
    case 1 show ?case using snoc(1) by (cases a) (simp_all add: final_value_def)
  next
    case 2 show ?case using snoc(2) by (cases a) (simp_all add: final_value_def)
  next
    case 3 show ?case using snoc(3) by (cases a) (simp_all add: final_value_def)
  next
    case 4 show ?case using snoc(4) by (cases a) (simp_all add: final_value_def)
  next
    case 5 show ?case using snoc(5) by (cases a) (simp_all add: final_value_def)
  next
    case 6 show ?case using snoc(6) by (cases a) (simp_all add: final_value_def)
  }
qed

text \<open>
  Claim C10, as amended. \<^verbatim>\<open>update_post\<close> on a stored id gives each field the last
  value supplied for it and leaves a field that was not supplied as it was;
  \<^verbatim>\<open>base_score\<close> is recomputed; \<^verbatim>\<open>post_id\<close> never changes; \<^verbatim>\<open>timestamp\<close> is a field
  like the others and changes when it is supplied. The other posts and the order of the
  store are untouched.
\<close>

theorem update_changes_supplied_fields:
  assumes "map_of (posts e) pid = Some p"
  shows "\<exists>p'. fst (update_post pid fs e) = Inr () \<and>
     map_of (posts (snd (update_post pid fs e))) pid = Some p' \<and>
     post_id p' = post_id p \<and>
     likes p' = final_value (likes p) [v. Set_likes v \<leftarrow> fs] \<and>
     comments p' = final_value (comments p) [v. Set_comments v \<leftarrow> fs] \<and>
     shares p' = final_value (shares p) [v. Set_shares v \<leftarrow> fs] \<and>
     upvotes p' = final_value (upvotes p) [v. Set_upvotes v \<leftarrow> fs] \<and>
     downvotes p' = final_value (downvotes p) [v. Set_downvotes v \<leftarrow> fs] \<and>
     timestamp p' = final_value (timestamp p) [v. Set_timestamp v \<leftarrow> fs] \<and>
     base_score p' = of_int (likes p' + comments p' * 2 + shares p' * 3) \<and>
     map fst (posts (snd (update_post pid fs e))) = map fst (posts e) \<and>
     (\<forall>q. q \<noteq> pid \<longrightarrow> map_of (posts (snd (update_post pid fs e))) q = map_of (posts e) q)"
proof -
  have keys: "map fst (AList.update pid v (posts e)) = map fst (posts e)" for v
    using assms by (auto simp: update_keys dest: map_of_SomeD intro: rev_image_eqI)
  show ?thesis
    using assms
    by (simp add: update_post_def Let_def invalidate_cache_def update_conv' keys
        foldl_setattr_fields post_id_foldl_setattr)
qed

text \<open>
  Claim C10 as stated fails: \<^verbatim>\<open>update_post('a', timestamp=5)\<close> changes the creation
  time of the post.
\<close>

theorem update_changes_timestamp:
  "map (timestamp \<circ> snd) (posts demo_engine) = [0] \<and>
   fst (update_post ''a'' [Set_timestamp 5] demo_engine) = Inr () \<and>
   map (timestamp \<circ> snd) (posts (snd (update_post ''a'' [Set_timestamp 5] demo_engine))) = [5]"
  by (simp add: demo_posts update_post_def Let_def invalidate_cache_def Post_def post_init_def
      Post_fields_def no_kwargs_def get_default_def)

theorem update_changes_supplied_fields_witness:
  "map_of (posts demo_engine) ''a'' = Some (Post 0 ''a'' (no_kwargs\<lparr>kw_likes := Some 100\<rparr>)) \<and>
   (\<exists>p'. fst (update_post ''a'' [Set_comments 4, Set_other ''title''] demo_engine) = Inr () \<and>
      map_of (posts (snd (update_post ''a'' [Set_comments 4, Set_other ''title''] demo_engine))) ''a'' = Some p' \<and>
      post_id p' = ''a'' \<and> likes p' = 100 \<and> comments p' = 4 \<and> timestamp p' = 0 \<and> base_score p' = 108)"
proof -
  have h: "map_of (posts demo_engine) ''a'' = Some (Post 0 ''a'' (no_kwargs\<lparr>kw_likes := Some 100\<rparr>))"
    by (simp add: demo_posts)
  show ?thesis
    using update_changes_supplied_fields[OF h, of "[Set_comments 4, Set_other ''title'']"] h
    by (auto simp: final_value_def Post_def post_init_def Post_fields_def no_kwargs_def get_default_def)
qed

lemma demo_scores:
  "calculate_score 0 post_a ''engagement_score'' no_params = Inr 10"
  "calculate_score 0 post_b ''engagement_score'' no_params = Inr 10"
  by (simp_all add: calculate_score_def engagement_score_def post_a_def post_b_def Post_def
      post_init_def Post_fields_def no_kwargs_def get_default_def)

lemma post_a_neq_b: "post_a \<noteq> post_b"
  by (simp add: post_a_def post_b_def Post_def post_init_def Post_fields_def)

lemma tied_lt: "entry_lt (10, post_a) (10, post_b) = Inl TypeError"
  "entry_lt (10, post_b) (10, post_a) = Inl TypeError"
  using post_a_neq_b by (auto simp: entry_lt_def)

section \<open>The streaming selector on tied scores\<close>

text \<open>
  Claim C1 fails on the code: for two different posts of equal score and \<open>top_k = 1\<close>
  the selector returns no ranking at all, because \<^verbatim>\<open>heappushpop\<close> compares the tuples
  \<^verbatim>\<open>(score, post)\<close> and falls through to comparing the posts.
\<close>

theorem streaming_tie_top1_raises:
  "rank_posts_streaming (StreamingRankingEngine 100000 1000) 0 [post_a, post_b]
     ''engagement_score'' 1 no_params = Inl TypeError"
  by (simp add: rank_posts_streaming_def StreamingRankingEngine_def demo_scores heappush_def
      siftdown_def heappushpop_def tied_lt)

text \<open>
  Claim C2 fails on the code: the heap is keyed on \<^verbatim>\<open>(score, post)\<close> with no
  tie-break, and \<^verbatim>\<open>heappush\<close> of a second post of equal score raises \<^verbatim>\<open>TypeError\<close>,
  so the selector is not total on well-formed posts.
\<close>

theorem streaming_tie_heappush_raises:
  "heappush [(10, post_a)] (10, post_b) = Inl TypeError \<and>
   rank_posts_streaming (StreamingRankingEngine 100000 1000) 0 [post_a, post_b]
     ''engagement_score'' 2 no_params = Inl TypeError"
  by (simp add: rank_posts_streaming_def StreamingRankingEngine_def demo_scores heappush_def
      siftdown_def heappushpop_def tied_lt)

section \<open>Hybrid weights and unknown algorithms\<close>

text \<open>
  Claim C8 as stated fails: a weights map holding only \<^verbatim>\<open>likes\<close> raises \<^verbatim>\<open>KeyError\<close>,
  while the same map completed by the defaults scores the post.
\<close>

theorem hybrid_partial_weights_raises:
  "hybrid_score 0 post_a (Some [''likes'' \<mapsto> 1]) = Inl (KeyError ''comments'') \<and>
   hybrid_score 0 post_a (Some (default_weights(''likes'' \<mapsto> 1))) = Inr 10"
  by (simp add: hybrid_score_def getitem_def default_weights_def post_a_def Post_def
      post_init_def Post_fields_def no_kwargs_def get_default_def)

text \<open>
  Claim C8, as amended. The defaults are used as a whole when no weights map is given;
  a map that has all four keys is used as it is; a map that lacks a key is not completed
  and the scorer raises \<^verbatim>\<open>KeyError\<close>.
\<close>

theorem hybrid_weights_defaults:
  "hybrid_score now p None = hybrid_score now p (Some default_weights) \<and>
   hybrid_score now p None =
     Inr ((of_int (likes p) * 1 + of_int (comments p) * 2 + of_int (shares p) * 3)
          * exp (- (1 / 10) * (now - timestamp p))) \<and>
   (w ''likes'' = Some wl \<and> w ''comments'' = Some wc \<and> w ''shares'' = Some ws \<and>
    w ''time_decay'' = Some wt \<longrightarrow>
      hybrid_score now p (Some w) =
        Inr ((of_int (likes p) * wl + of_int (comments p) * wc + of_int (shares p) * ws)
             * exp (- wt * (now - timestamp p)))) \<and>
   (w ''likes'' = None \<or> w ''comments'' = None \<or> w ''shares'' = None \<or> w ''time_decay'' = None \<longrightarrow>
      (\<exists>k. hybrid_score now p (Some w) = Inl (KeyError k)))"
  by (auto simp: hybrid_score_def getitem_def default_weights_def Let_def split: option.splits)

theorem hybrid_weights_defaults_witness:
  "[''likes'' \<mapsto> 2, ''comments'' \<mapsto> 5, ''shares'' \<mapsto> 3, ''time_decay'' \<mapsto> (0 :: real)] ''comments'' = Some 5 \<and>
   hybrid_score 0 post_a (Some [''likes'' \<mapsto> 2, ''comments'' \<mapsto> 5, ''shares'' \<mapsto> 3, ''time_decay'' \<mapsto> 0])
     = Inr 20 \<and>
   hybrid_score 0 post_a None = Inr 10 \<and>
   [''likes'' \<mapsto> (1 :: real)] ''comments'' = None \<and>
   (\<exists>k. hybrid_score 0 post_a (Some [''likes'' \<mapsto> 1]) = Inl (KeyError k))"
  using hybrid_weights_defaults[of 0 post_a
      "[''likes'' \<mapsto> 2, ''comments'' \<mapsto> 5, ''shares'' \<mapsto> 3, ''time_decay'' \<mapsto> 0]" 2 5 3 0]
    hybrid_weights_defaults[of 0 post_a "[''likes'' \<mapsto> 1]"]
  by (simp add: post_a_def Post_def post_init_def Post_fields_def no_kwargs_def get_default_def)

lemma score_dispatch_same: "calculate_score now p algorithm kwargs = score_of now algorithm kwargs p"
  by (simp add: calculate_score_def score_of_def)

lemma unknown_algorithm_score:
  "algorithm \<notin> {''hot_score'', ''engagement_score'', ''time_decay'', ''hybrid''} \<Longrightarrow>
   score_of now algorithm kwargs p = Inl (ValueError_unknown_algorithm algorithm)"
  by (simp add: score_of_def)

lemma known_algorithm_score:
  "algorithm \<in> {''hot_score'', ''engagement_score'', ''time_decay'', ''hybrid''} \<Longrightarrow>
   score_of now algorithm kwargs p \<noteq> Inl (ValueError_unknown_algorithm a)"
  by (auto simp: score_of_def engagement_score_def hybrid_score_def getitem_def Let_def
      split: option.splits)

lemma unknown_algorithm_resident_nonempty:
  assumes "algorithm \<notin> {''hot_score'', ''engagement_score'', ''time_decay'', ''hybrid''}"
    and "posts e \<noteq> []" and "\<not> is_cache_valid now algorithm e"
  shows "get_ranked_posts now algorithm limit kwargs e = (Inl (ValueError_unknown_algorithm algorithm), e)"
proof -
  from assms(2) obtain pid p rest where ps: "posts e = (pid, p) # rest"
    by (cases "posts e") auto
  have "calculate_scores now algorithm kwargs e = Inl (ValueError_unknown_algorithm algorithm)"
    by (simp add: calculate_scores_def ps unknown_algorithm_score[OF assms(1)])
  with assms(3) show ?thesis by (simp add: get_ranked_posts_def)
qed

lemma unknown_algorithm_streaming_nonempty:
  assumes "algorithm \<notin> {''hot_score'', ''engagement_score'', ''time_decay'', ''hybrid''}"
    and "post_iterator \<noteq> []" and "0 < batch_size self"
  shows "rank_posts_streaming self now post_iterator algorithm top_k kwargs
     = Inl (ValueError_unknown_algorithm algorithm)"
proof -
  from assms(2) obtain p rest where ps: "post_iterator = p # rest"
    by (cases post_iterator) auto
  from assms(3) obtain n where n: "nat (batch_size self) = Suc n"
    by (cases "nat (batch_size self)") auto
  have sc: "calculate_score now p algorithm kwargs = Inl (ValueError_unknown_algorithm algorithm)"
    by (simp add: score_dispatch_same unknown_algorithm_score[OF assms(1)])
  have "stream_loop self now algorithm top_k kwargs [] 0 0 post_iterator
      = Inl (ValueError_unknown_algorithm algorithm)"
    by (subst stream_loop.simps) (simp add: ps n sc)
  then show ?thesis by (simp add: rank_posts_streaming_def)
qed

text \<open>
  Claim C9 fails on the code: the name of the algorithm is only looked at inside the
  loop over the posts, so on an empty store and on an empty sequence an unregistered name
  is accepted and an empty ranking is returned.
\<close>

theorem unknown_algorithm_accepted_on_empty:
  "fst (get_ranked_posts 0 ''not_a_real_algorithm'' 100 no_params (RankingEngine 10000)) = Inr [] \<and>
   rank_posts_streaming (StreamingRankingEngine 100000 1000) 0 [] ''not_a_real_algorithm'' 100 no_params
     = Inr \<lparr>top_posts = [], total_posts_processed = 0, res_algorithm = ''not_a_real_algorithm'',
            res_batch_size = 100000\<rparr>"
  by (simp add: get_ranked_posts_def is_cache_valid_def RankingEngine_def calculate_scores_def
      sort_reverse_def slice_to_def rank_posts_streaming_def StreamingRankingEngine_def
      sorted_reverse_def)

section \<open>Rankings of the resident engine\<close>

lemma calculate_scores_loop_result:
  "calculate_scores_loop now alg kw ps acc = Inr r \<Longrightarrow>
   \<exists>ss. r = acc @ ss \<and>
     list_all2 (\<lambda>kp sp. snd sp = fst kp \<and> score_of now alg kw (snd kp) = Inr (fst sp)) ps ss"
proof (induction ps arbitrary: acc)
  case Nil
  then show ?case by simp
next
  case (Cons kp ps)
  obtain pid p where kp: "kp = (pid, p)" by (cases kp)
  from Cons.prems kp obtain s where s: "score_of now alg kw p = Inr s"
    and rest: "calculate_scores_loop now alg kw ps (acc @ [(s, pid)]) = Inr r"
    by (auto split: sum.splits)
  from Cons.IH[OF rest] obtain ss where "r = (acc @ [(s, pid)]) @ ss"
    and "list_all2 (\<lambda>kp sp. snd sp = fst kp \<and> score_of now alg kw (snd kp) = Inr (fst sp)) ps ss"
    by blast
  then show ?case using kp s by (intro exI[of _ "(s, pid) # ss"]) simp
qed

lemma calculate_scores_ids:
  assumes "calculate_scores now alg kw e = Inr r"
  shows "map snd r = map fst (posts e)"
proof -
  from calculate_scores_loop_result[OF assms[unfolded calculate_scores_def]]
  have "list_all2 (\<lambda>kp sp. snd sp = fst kp \<and> score_of now alg kw (snd kp) = Inr (fst sp)) (posts e) r"
    by simp
  then show ?thesis
    by (induction rule: list_all2_induct) simp_all
qed

lemma calculate_scores_member:
  assumes "calculate_scores now alg kw e = Inr r" and "(s, pid) \<in> set r"
  shows "\<exists>p. (pid, p) \<in> set (posts e) \<and> score_of now alg kw p = Inr s"
proof -
  from calculate_scores_loop_result[OF assms(1)[unfolded calculate_scores_def]]
  have "list_all2 (\<lambda>kp sp. snd sp = fst kp \<and> score_of now alg kw (snd kp) = Inr (fst sp)) (posts e) r"
    by simp
  then show ?thesis using assms(2)
    by (induction rule: list_all2_induct) auto
qed

lemma mset_sort_reverse: "mset (sort_reverse xs) = mset xs"
  by (simp add: sort_reverse_def)

lemma set_sort_reverse: "set (sort_reverse xs) = set xs"
  by (simp add: sort_reverse_def)

lemma sorted_map_fst: "sorted (ys :: (real \<times> string) list) \<Longrightarrow> sorted (map fst ys)"
  by (induction ys) (auto simp: less_eq_prod_def)

lemma sort_reverse_descending: "sorted_wrt (\<lambda>a b. b \<le> a) (map fst (sort_reverse xs))"
proof -
  have "sorted (sort_key (\<lambda>x. x) (rev xs))"
    using sorted_sort_key[of "\<lambda>x. x" "rev xs"] by simp
  then have "sorted (map fst (sort_key (\<lambda>x. x) (rev xs)))"
    by (rule sorted_map_fst)
  then show ?thesis
    by (simp add: sort_reverse_def rev_map[symmetric] sorted_wrt_rev)
qed

lemma build_result_props:
  "build_result now ps r xs = Inr rs \<Longrightarrow>
   length rs = length xs \<and>
   (\<forall>i<length xs. r_rank (rs ! i) = r + i \<and> r_score (rs ! i) = fst (xs ! i) \<and>
      r_post_id (rs ! i) = snd (xs ! i) \<and>
      (\<exists>p. map_of ps (snd (xs ! i)) = Some p \<and> r_likes (rs ! i) = likes p \<and>
         r_comments (rs ! i) = comments p \<and> r_shares (rs ! i) = shares p \<and>
         r_upvotes (rs ! i) = upvotes p \<and> r_downvotes (rs ! i) = downvotes p \<and>
         r_timestamp (rs ! i) = timestamp p \<and>
         r_age_hours (rs ! i) = (now - timestamp p) / 3600))"
proof (induction xs arbitrary: r rs)
  case Nil
  then show ?case by simp
next
  case (Cons x xs)
  obtain s pid where x: "x = (s, pid)" by (cases x)
  from Cons.prems x obtain p rest where p: "map_of ps pid = Some p"
    and rest: "build_result now ps (Suc r) xs = Inr rest"
    and rs: "rs = \<lparr>r_rank = r, r_post_id = pid, r_score = s, r_likes = likes p,
                      r_comments = comments p, r_shares = shares p, r_upvotes = upvotes p,
                      r_downvotes = downvotes p, r_timestamp = timestamp p,
                      r_age_hours = (now - timestamp p) / 3600\<rparr> # rest"
    by (auto split: option.splits sum.splits)
  note IH = Cons.IH[OF rest]
  have len: "length rs = length (x # xs)" using IH rs by simp
  have "r_rank (rs ! i) = r + i \<and> r_score (rs ! i) = fst ((x # xs) ! i) \<and>
      r_post_id (rs ! i) = snd ((x # xs) ! i) \<and>
      (\<exists>p. map_of ps (snd ((x # xs) ! i)) = Some p \<and> r_likes (rs ! i) = likes p \<and>
         r_comments (rs ! i) = comments p \<and> r_shares (rs ! i) = shares p \<and>
         r_upvotes (rs ! i) = upvotes p \<and> r_downvotes (rs ! i) = downvotes p \<and>
         r_timestamp (rs ! i) = timestamp p \<and>
         r_age_hours (rs ! i) = (now - timestamp p) / 3600)"
    if i: "i < length (x # xs)" for i
  proof (cases i)
    case 0
    then show ?thesis using rs x p by simp
  next
    case (Suc j)
    with i have "j < length xs" by simp
    with IH Suc rs show ?thesis by simp
  qed
  with len show ?case by blast
qed

lemma build_result_total:
  "\<forall>x\<in>set xs. map_of ps (snd x) \<noteq> None \<Longrightarrow> \<exists>rs. build_result now ps r xs = Inr rs"
proof (induction xs arbitrary: r)
  case Nil
  show ?case by simp
next
  case (Cons x xs)
  obtain s pid where x: "x = (s, pid)" by (cases x)
  from Cons.prems x obtain p where p: "map_of ps pid = Some p" by auto
  from Cons.IH[of "Suc r"] Cons.prems obtain rest where "build_result now ps (Suc r) xs = Inr rest"
    by auto
  with x p show ?case by simp
qed

lemma build_result_pairs:
  "build_result now ps r xs = Inr rs \<Longrightarrow> map (\<lambda>r. (r_score r, r_post_id r)) rs = xs"
proof (induction xs arbitrary: r rs)
  case Nil
  then show ?case by simp
next
  case (Cons x xs)
  then show ?case by (cases x) (auto split: option.splits sum.splits)
qed

lemma cache_ok_invalidate: "cache_ok (invalidate_cache e)"
  by (simp add: cache_ok_def invalidate_cache_def)

lemma reachable_cache_ok: "reachable e \<Longrightarrow> cache_ok e"
proof (induction rule: reachable.induct)
  case (init csize)
  show ?case by (simp add: cache_ok_def RankingEngine_def)
next
  case (add e now pid kw)
  then show ?case by (simp add: add_post_def cache_ok_invalidate)
next
  case (update e pid kwargs)
  then show ?case
    by (simp add: update_post_def Let_def cache_ok_invalidate split: option.splits)
next
  case (batch e now posts_data)
  show ?case by (simp add: batch_add_posts_def cache_ok_invalidate)
next
  case (ranked e now algorithm limit skw)
  show ?case
  proof (cases "is_cache_valid now algorithm e")
    case True
    with ranked show ?thesis
      by (simp add: get_ranked_posts_def split: option.splits)
  next
    case False
    show ?thesis
    proof (cases "calculate_scores now algorithm skw e")
      case (Inl err)
      with False ranked show ?thesis by (simp add: get_ranked_posts_def)
    next
      case (Inr scores0)
      have ids: "mset (map snd (sort_reverse scores0)) = mset (map fst (posts e))"
        using calculate_scores_ids[OF Inr] mset_sort_reverse[of scores0]
        by (metis mset_map)
      from False Inr ranked ids show ?thesis
        by (auto simp: get_ranked_posts_def Let_def cache_ok_def sort_reverse_descending)
    qed
  qed
qed

lemma slice_to_nonneg: "0 \<le> limit \<Longrightarrow> slice_to limit xs = take (nat limit) xs"
  by (simp add: slice_to_def)

lemma set_slice_to: "set (slice_to limit xs) \<subseteq> set xs"
  by (auto simp: slice_to_def dest: in_set_takeD)

lemma get_ranked_cases:
  assumes "get_ranked_posts now alg limit kw e = (Inr rs, e')"
  obtains (cached) full where "is_cache_valid now alg e" "ranking_cache e alg = Some full" "e' = e"
      "build_result now (posts e) 1 (slice_to limit full) = Inr rs"
  | (fresh) scores0 where "\<not> is_cache_valid now alg e" "calculate_scores now alg kw e = Inr scores0"
      "e' = e\<lparr>ranking_cache := (ranking_cache e)(alg \<mapsto> sort_reverse scores0),
               cache_timestamps := (cache_timestamps e)(alg \<mapsto> now)\<rparr>"
      "build_result now (posts e) 1 (slice_to limit (sort_reverse scores0)) = Inr rs"
  using assms
  by (auto simp: get_ranked_posts_def Let_def split: if_splits option.splits sum.splits)

text \<open>
  Claim C7, as amended: for a limit that is not negative. In a reachable state a
  successful \<^verbatim>\<open>get_ranked_posts\<close> returns the first \<open>limit\<close> entries of the ranking it
  leaves in the cache, which is in descending order of score and ranks exactly the stored
  ids; the \<open>i\<close>-th entry has rank \<open>i + 1\<close>, the current fields of its post and the age
  of the post in hours; when the ranking was computed by this call, the score is the
  score of the post as it is now.
\<close>

theorem get_ranked_sorted_prefix:
  assumes "reachable e" and "0 \<le> limit"
    and "get_ranked_posts now alg limit kw e = (Inr rs, e')"
  shows "\<exists>full. ranking_cache e' alg = Some full \<and>
     mset (map snd full) = mset (map fst (posts e)) \<and>
     sorted_wrt (\<lambda>a b. b \<le> a) (map fst full) \<and>
     map (\<lambda>r. (r_score r, r_post_id r)) rs = take (nat limit) full \<and>
     int (length rs) \<le> limit \<and>
     sorted_wrt (\<lambda>a b. b \<le> a) (map r_score rs) \<and>
     (\<forall>i<length rs. r_rank (rs ! i) = i + 1 \<and>
        (\<exists>p. map_of (posts e) (r_post_id (rs ! i)) = Some p \<and>
           r_likes (rs ! i) = likes p \<and> r_comments (rs ! i) = comments p \<and>
           r_shares (rs ! i) = shares p \<and> r_upvotes (rs ! i) = upvotes p \<and>
           r_downvotes (rs ! i) = downvotes p \<and> r_timestamp (rs ! i) = timestamp p \<and>
           r_age_hours (rs ! i) = (now - timestamp p) / 3600 \<and>
           (\<not> is_cache_valid now alg e \<longrightarrow> score_of now alg kw p = Inr (r_score (rs ! i)))))"
proof -
  have store: "store_ok (posts e)" using assms(1) by (rule reachable_store_ok)
  have main: "?thesis"
    if full: "ranking_cache e' alg = Some full"
      and ids: "mset (map snd full) = mset (map fst (posts e))"
      and desc: "sorted_wrt (\<lambda>a b. b \<le> a) (map fst full)"
      and br: "build_result now (posts e) 1 (take (nat limit) full) = Inr rs"
      and sc: "\<not> is_cache_valid now alg e \<Longrightarrow>
                 \<forall>x\<in>set full. \<exists>p. (snd x, p) \<in> set (posts e) \<and> score_of now alg kw p = Inr (fst x)"
    for full
  proof -
    have pairs: "map (\<lambda>r. (r_score r, r_post_id r)) rs = take (nat limit) full"
      using br by (rule build_result_pairs)
    have len: "length rs = length (take (nat limit) full)"
      using build_result_props[OF br] by blast
    have len': "int (length rs) \<le> limit" using len assms(2) by simp
    have "map r_score rs = map fst (map (\<lambda>r. (r_score r, r_post_id r)) rs)"
      by (simp add: comp_def)
    then have "map r_score rs = take (nat limit) (map fst full)"
      by (simp add: pairs take_map)
    then have sorted: "sorted_wrt (\<lambda>a b. b \<le> a) (map r_score rs)"
      using desc by simp
    have each: "r_rank (rs ! i) = i + 1 \<and>
        (\<exists>p. map_of (posts e) (r_post_id (rs ! i)) = Some p \<and>
           r_likes (rs ! i) = likes p \<and> r_comments (rs ! i) = comments p \<and>
           r_shares (rs ! i) = shares p \<and> r_upvotes (rs ! i) = upvotes p \<and>
           r_downvotes (rs ! i) = downvotes p \<and> r_timestamp (rs ! i) = timestamp p \<and>
           r_age_hours (rs ! i) = (now - timestamp p) / 3600 \<and>
           (\<not> is_cache_valid now alg e \<longrightarrow> score_of now alg kw p = Inr (r_score (rs ! i))))"
      if i: "i < length rs" for i
    proof -
      let ?xs = "take (nat limit) full"
      from i len have i': "i < length ?xs" by simp
      from build_result_props[OF br] i' obtain p where
        rk: "r_rank (rs ! i) = 1 + i" and s: "r_score (rs ! i) = fst (?xs ! i)"
        and pid: "r_post_id (rs ! i) = snd (?xs ! i)"
        and p: "map_of (posts e) (snd (?xs ! i)) = Some p"
        and fl: "r_likes (rs ! i) = likes p" "r_comments (rs ! i) = comments p"
          "r_shares (rs ! i) = shares p" "r_upvotes (rs ! i) = upvotes p"
          "r_downvotes (rs ! i) = downvotes p" "r_timestamp (rs ! i) = timestamp p"
          "r_age_hours (rs ! i) = (now - timestamp p) / 3600"
        by blast
      have fresh: "score_of now alg kw p = Inr (r_score (rs ! i))" if nv: "\<not> is_cache_valid now alg e"
      proof -
        have "?xs ! i \<in> set full" using i' by (meson in_set_takeD nth_mem)
        with sc[OF nv] obtain q where q: "(snd (?xs ! i), q) \<in> set (posts e)"
          and sq: "score_of now alg kw q = Inr (fst (?xs ! i))" by blast
        from store q have "map_of (posts e) (snd (?xs ! i)) = Some q"
          by (simp add: store_ok_def)
        with p have "q = p" by simp
        with sq s show ?thesis by simp
      qed
      show ?thesis using rk pid p fl fresh by simp
    qed
    show ?thesis
      using full ids desc pairs len' sorted each by blast
  qed
  from assms(3) show ?thesis
  proof (cases rule: get_ranked_cases)
    case (cached full)
    from cached(1) obtain t where t: "cache_timestamps e alg = Some t"
      by (auto simp: is_cache_valid_def split: option.splits)
    from reachable_cache_ok[OF assms(1)] t cached(2)
    have ok: "sorted_wrt (\<lambda>a b. b \<le> a) (map fst full)" "mset (map snd full) = mset (map fst (posts e))"
      by (auto simp: cache_ok_def)
    show ?thesis
      by (rule main[of full]) (use cached ok assms(2) in \<open>simp_all add: slice_to_nonneg\<close>)
  next
    case (fresh scores0)
    have ids: "mset (map snd (sort_reverse scores0)) = mset (map fst (posts e))"
      using calculate_scores_ids[OF fresh(2)] mset_sort_reverse[of scores0] by (metis mset_map)
    have sc: "\<forall>x\<in>set (sort_reverse scores0). \<exists>p. (snd x, p) \<in> set (posts e) \<and> score_of now alg kw p = Inr (fst x)"
      using calculate_scores_member[OF fresh(2)] by (auto simp: set_sort_reverse)
    show ?thesis
      by (rule main[of "sort_reverse scores0"])
        (use fresh ids sc assms(2) in \<open>simp_all add: slice_to_nonneg sort_reverse_descending\<close>)
  qed
qed

lemma demo_posts2:
  "posts demo_engine2 = [(''a'', Post 0 ''a'' (no_kwargs\<lparr>kw_likes := Some 100\<rparr>)),
     (''b'', Post 0 ''b'' (no_kwargs\<lparr>kw_likes := Some 50\<rparr>))]"
  by (simp add: demo_engine2_def add_post_def invalidate_cache_def demo_posts)

lemma demo_cache2: "cache_timestamps demo_engine2 = Map.empty" "ranking_cache demo_engine2 = Map.empty"
  by (simp_all add: demo_engine2_def add_post_def invalidate_cache_def demo_posts)

lemma reachable_demo2: "reachable demo_engine2"
  unfolding demo_engine2_def demo_engine_def by (intro reachable.intros)

lemma demo_scores2:
  "calculate_scores 0 ''engagement_score'' no_params demo_engine2 = Inr [(100, ''a''), (50, ''b'')]"
  by (simp add: calculate_scores_def demo_posts2 score_of_def engagement_score_def Post_def
      post_init_def Post_fields_def no_kwargs_def get_default_def)

lemma demo_sort2: "sort_reverse [(100 :: real, ''a''), (50, ''b'')] = [(100, ''a''), (50, ''b'')]"
  by (simp add: sort_reverse_def)

text \<open>
  Claim C7 as stated fails for a negative limit: \<^verbatim>\<open>cached_scores[:-1]\<close> is the ranking
  without its last entry, here one entry, which is more than \<open>limit\<close>.
\<close>

theorem negative_limit_returns_entries:
  "map r_post_id (projr (fst (get_ranked_posts 0 ''engagement_score'' (- 1) no_params demo_engine2))) = [''a''] \<and>
   \<not> int (length (projr (fst (get_ranked_posts 0 ''engagement_score'' (- 1) no_params demo_engine2)))) \<le> - 1"
  by (simp add: get_ranked_posts_def is_cache_valid_def demo_cache2 demo_scores2 demo_sort2
      slice_to_def demo_posts2 Let_def)

theorem get_ranked_sorted_prefix_witness:
  "reachable demo_engine2 \<and> (0 :: int) \<le> 1 \<and>
   map (\<lambda>r. (r_rank r, r_post_id r, r_score r, r_likes r, r_age_hours r))
     (projr (fst (get_ranked_posts 3600 ''engagement_score'' 1 no_params demo_engine2)))
     = [(1, ''a'', 100 / 3601, 100, 1)] \<and>
   (\<exists>full. ranking_cache (snd (get_ranked_posts 3600 ''engagement_score'' 1 no_params demo_engine2))
       ''engagement_score'' = Some full \<and>
     map (\<lambda>r. (r_score r, r_post_id r))
       (projr (fst (get_ranked_posts 3600 ''engagement_score'' 1 no_params demo_engine2))) = take 1 full)"
proof -
  let ?call = "get_ranked_posts 3600 ''engagement_score'' 1 no_params demo_engine2"
  have sc: "calculate_scores 3600 ''engagement_score'' no_params demo_engine2
      = Inr [(100 / 3601, ''a''), (50 / 3601, ''b'')]"
    by (simp add: calculate_scores_def demo_posts2 score_of_def engagement_score_def Post_def
      post_init_def Post_fields_def no_kwargs_def get_default_def)
  have so: "sort_reverse [(100 / 3601 :: real, ''a''), (50 / 3601, ''b'')]
      = [(100 / 3601, ''a''), (50 / 3601, ''b'')]"
    by (simp add: sort_reverse_def)
  have res: "fst ?call = Inr [\<lparr>r_rank = 1, r_post_id = ''a'', r_score = 100 / 3601, r_likes = 100,
      r_comments = 0, r_shares = 0, r_upvotes = 0, r_downvotes = 0, r_timestamp = 0,
      r_age_hours = 1\<rparr>]"
    by (simp add: get_ranked_posts_def is_cache_valid_def demo_cache2 sc so
      slice_to_def demo_posts2 Let_def Post_def
      post_init_def Post_fields_def no_kwargs_def get_default_def)
  have call: "?call = (Inr [\<lparr>r_rank = 1, r_post_id = ''a'', r_score = 100 / 3601, r_likes = 100,
      r_comments = 0, r_shares = 0, r_upvotes = 0, r_downvotes = 0, r_timestamp = 0,
      r_age_hours = 1\<rparr>], snd ?call)"
    using res by (metis prod.collapse)
  have le: "(0 :: int) \<le> 1" by simp
  show ?thesis
    using get_ranked_sorted_prefix[OF reachable_demo2 le call] reachable_demo2 res
    by auto
qed

text \<open>
  Claim C4. After a successful \<^verbatim>\<open>add_post\<close>, \<^verbatim>\<open>update_post\<close> or \<^verbatim>\<open>batch_add_posts\<close>
  the cache is empty for every algorithm, no entry is valid at any time, and every entry
  that a following \<^verbatim>\<open>get_ranked_posts\<close> returns carries the score and the counters of
  the post as stored after the mutation.
\<close>

theorem mutation_invalidates_cache:
  assumes "reachable e"
    and "fst (add_post now pid kw e) = Inr () \<and> e' = snd (add_post now pid kw e) \<or>
         fst (update_post pid fs e) = Inr () \<and> e' = snd (update_post pid fs e) \<or>
         e' = snd (batch_add_posts now posts_data e)"
  shows "ranking_cache e' = Map.empty \<and> cache_timestamps e' = Map.empty \<and>
     \<not> is_cache_valid t alg e' \<and>
     (fst (get_ranked_posts t alg limit skw e') = Inr rs \<longrightarrow>
        (\<forall>r\<in>set rs. \<exists>p. map_of (posts e') (r_post_id r) = Some p \<and>
           score_of t alg skw p = Inr (r_score r) \<and>
           r_likes r = likes p \<and> r_comments r = comments p \<and> r_shares r = shares p \<and>
           r_upvotes r = upvotes p \<and> r_downvotes r = downvotes p))"
proof -
  have empty: "ranking_cache e' = Map.empty \<and> cache_timestamps e' = Map.empty"
    using assms(2)
    by (auto simp: add_post_def update_post_def batch_add_posts_def invalidate_cache_def Let_def
        split: if_splits option.splits)
  then have nv: "\<not> is_cache_valid t alg e'"
    by (simp add: is_cache_valid_def)
  have r': "reachable e'"
    using assms by (auto intro: reachable.intros)
  then have store: "store_ok (posts e')" by (rule reachable_store_ok)
  have "\<exists>p. map_of (posts e') (r_post_id r) = Some p \<and>
           score_of t alg skw p = Inr (r_score r) \<and>
           r_likes r = likes p \<and> r_comments r = comments p \<and> r_shares r = shares p \<and>
           r_upvotes r = upvotes p \<and> r_downvotes r = downvotes p"
    if res: "fst (get_ranked_posts t alg limit skw e') = Inr rs" and r: "r \<in> set rs" for r
  proof -
    from res nv obtain scores0 where sc: "calculate_scores t alg skw e' = Inr scores0"
      and br: "build_result t (posts e') 1 (slice_to limit (sort_reverse scores0)) = Inr rs"
      by (auto simp: get_ranked_posts_def Let_def split: sum.splits)
    let ?xs = "slice_to limit (sort_reverse scores0)"
    from r obtain i where i: "i < length rs" and ri: "rs ! i = r"
      by (auto simp: in_set_conv_nth)
    from build_result_props[OF br] i obtain p where
      s: "r_score (rs ! i) = fst (?xs ! i)" and pid: "r_post_id (rs ! i) = snd (?xs ! i)"
      and p: "map_of (posts e') (snd (?xs ! i)) = Some p"
      and fl: "r_likes (rs ! i) = likes p" "r_comments (rs ! i) = comments p"
          "r_shares (rs ! i) = shares p" "r_upvotes (rs ! i) = upvotes p"
          "r_downvotes (rs ! i) = downvotes p"
      and len: "length rs = length ?xs"
      by force
    have "?xs ! i \<in> set scores0"
      using i len set_slice_to[of limit "sort_reverse scores0"] by (auto simp: set_sort_reverse)
    then have "(fst (?xs ! i), snd (?xs ! i)) \<in> set scores0" by simp
    from calculate_scores_member[OF sc this] obtain q where q: "(snd (?xs ! i), q) \<in> set (posts e')"
      and sq: "score_of t alg skw q = Inr (fst (?xs ! i))" by blast
    from store q have "map_of (posts e') (snd (?xs ! i)) = Some q"
      by (simp add: store_ok_def)
    with p have "q = p" by simp
    with sq s pid p fl ri show ?thesis by auto
  qed
  with empty nv show ?thesis by blast
qed

lemma demo_cached_eq:
  "demo_cached = demo_engine\<lparr>ranking_cache := [''engagement_score'' \<mapsto> [(100, ''a'')]],
      cache_timestamps := [''engagement_score'' \<mapsto> 0]\<rparr>"
proof -
  have c: "cache_timestamps demo_engine = Map.empty" "ranking_cache demo_engine = Map.empty"
    by (simp_all add: demo_engine_def add_post_def invalidate_cache_def RankingEngine_def)
  have sc: "calculate_scores 0 ''engagement_score'' no_params demo_engine = Inr [(100, ''a'')]"
    by (simp add: calculate_scores_def demo_posts score_of_def engagement_score_def Post_def
      post_init_def Post_fields_def no_kwargs_def get_default_def)
  show ?thesis
    by (simp add: demo_cached_def get_ranked_posts_def is_cache_valid_def c sc sort_reverse_def Let_def)
qed

theorem mutation_invalidates_cache_witness:
  "reachable demo_cached \<and>
   is_cache_valid 10 ''engagement_score'' demo_cached \<and>
   map r_score (projr (fst (get_ranked_posts 10 ''engagement_score'' 100 no_params demo_cached))) = [100] \<and>
   fst (update_post ''a'' [Set_likes 200] demo_cached) = Inr () \<and>
   ranking_cache demo_updated = Map.empty \<and>
   \<not> is_cache_valid 10 ''engagement_score'' demo_updated \<and>
   map r_score (projr (fst (get_ranked_posts 10 ''engagement_score'' 100 no_params demo_updated))) = [200 / 11]"
proof -
  have r: "reachable demo_cached"
    unfolding demo_cached_def demo_engine_def by (intro reachable.intros)
  have ttl: "cache_ttl demo_engine = 60"
    by (simp add: demo_engine_def add_post_def invalidate_cache_def RankingEngine_def)
  have valid: "is_cache_valid 10 ''engagement_score'' demo_cached"
    by (simp add: demo_cached_eq is_cache_valid_def ttl)
  have old: "map r_score (projr (fst (get_ranked_posts 10 ''engagement_score'' 100 no_params demo_cached))) = [100]"
    using valid
    by (simp add: get_ranked_posts_def) (simp add: demo_cached_eq slice_to_def demo_posts)
  have ps: "posts demo_cached = posts demo_engine"
    by (simp add: demo_cached_eq)
  have up: "fst (update_post ''a'' [Set_likes 200] demo_cached) = Inr ()"
    by (simp add: update_post_def ps demo_posts Let_def)
  have ps': "posts demo_updated = [(''a'', \<lparr>post_id = ''a'', likes = 200, comments = 0, shares = 0,
      upvotes = 0, downvotes = 0, timestamp = 0, base_score = 200\<rparr>)]"
    by (simp add: demo_updated_def update_post_def ps demo_posts Let_def invalidate_cache_def
        Post_def post_init_def Post_fields_def no_kwargs_def get_default_def)
  have hyp: "fst (add_post 0 ''a'' no_kwargs demo_cached) = Inr () \<and> demo_updated = snd (add_post 0 ''a'' no_kwargs demo_cached) \<or>
         fst (update_post ''a'' [Set_likes 200] demo_cached) = Inr () \<and> demo_updated = snd (update_post ''a'' [Set_likes 200] demo_cached) \<or>
         demo_updated = snd (batch_add_posts 0 [] demo_cached)"
    using up by (simp add: demo_updated_def)
  note inst = mutation_invalidates_cache[OF r hyp, of 10 "''engagement_score''" 100 no_params]
  have empty: "ranking_cache demo_updated = Map.empty" "cache_timestamps demo_updated = Map.empty"
    and nv: "\<not> is_cache_valid 10 ''engagement_score'' demo_updated"
    using inst by blast+
  have sc: "calculate_scores 10 ''engagement_score'' no_params demo_updated = Inr [(200 / 11, ''a'')]"
    by (simp add: calculate_scores_def ps' score_of_def engagement_score_def)
  have new: "map r_score (projr (fst (get_ranked_posts 10 ''engagement_score'' 100 no_params demo_updated))) = [200 / 11]"
    using nv by (simp add: get_ranked_posts_def sc sort_reverse_def slice_to_def ps' Let_def)
  show ?thesis
    using r valid old up empty nv new by simp
qed

section \<open>Correctness of the streaming selector away from ties\<close>

lemma entry_lt_total:
  "score_inj S \<Longrightarrow> a \<in> S \<Longrightarrow> b \<in> S \<Longrightarrow> entry_lt a b = Inr (fst a < fst b)"
  by (auto simp: score_inj_def entry_lt_def)

lemma mset_update_swap:
  assumes "i < length h" "j < length h" "i \<noteq> j"
  shows "mset (h[i := h ! j, j := v]) = mset (h[i := v])"
  using assms by (simp add: mset_update nth_list_update)

lemma nth_in: "set h \<subseteq> S \<Longrightarrow> i < length h \<Longrightarrow> h ! i \<in> S"
  using nth_mem by blast

lemma set_update_in: "set h \<subseteq> S \<Longrightarrow> v \<in> S \<Longrightarrow> set (h[i := v]) \<subseteq> S"
  by (meson insert_subset order_trans set_update_subset_insert)

lemma hole_fill:
  assumes "hole_inv h newitem pos" and "0 < pos \<longrightarrow> fst (h ! ((pos - 1) div 2)) \<le> fst newitem"
  shows "heap_inv (h[pos := newitem])"
  unfolding heap_inv_def
proof (intro allI impI)
  fix i assume i: "0 < i \<and> i < length (h[pos := newitem])"
  from assms(1) have pos: "pos < length h" by (simp add: hole_inv_def)
  consider "i = pos" | "i \<noteq> pos" "(i - 1) div 2 = pos" | "i \<noteq> pos" "(i - 1) div 2 \<noteq> pos" by blast
  then show "fst (h[pos := newitem] ! ((i - 1) div 2)) \<le> fst (h[pos := newitem] ! i)"
  proof cases
    case 1
    with i have "(i - 1) div 2 \<noteq> pos" by arith
    with 1 i assms(2) pos show ?thesis by simp
  next
    case 2
    with i assms(1) pos show ?thesis by (simp add: hole_inv_def)
  next
    case 3
    with i assms(1) pos show ?thesis by (simp add: hole_inv_def)
  qed
qed

lemma hole_up:
  assumes "hole_inv h newitem pos" and "0 < pos" and "fst newitem < fst (h ! ((pos - 1) div 2))"
  shows "hole_inv (h[pos := h ! ((pos - 1) div 2)]) newitem ((pos - 1) div 2)"
proof -
  let ?pp = "(pos - 1) div 2"
  let ?h = "h[pos := h ! ?pp]"
  from assms(1) have pos: "pos < length h" by (simp add: hole_inv_def)
  from assms(2) have pp: "?pp < pos" by arith
  have edge: "fst (h ! ((i - 1) div 2)) \<le> fst (h ! i)"
    if "0 < i" "i < length h" "i \<noteq> pos" "(i - 1) div 2 \<noteq> pos" for i
    using assms(1) that by (simp add: hole_inv_def)
  have child: "fst newitem \<le> fst (h ! c) \<and> fst (h ! ?pp) \<le> fst (h ! c)"
    if "0 < c" "c < length h" "(c - 1) div 2 = pos" for c
    using assms(1,2) that by (simp add: hole_inv_def)
  have A: "fst (?h ! ((i - 1) div 2)) \<le> fst (?h ! i)"
    if i: "0 < i" "i < length ?h" "i \<noteq> ?pp" "(i - 1) div 2 \<noteq> ?pp" for i
  proof -
    from i have ip: "i \<noteq> pos" by auto
    show ?thesis
    proof (cases "(i - 1) div 2 = pos")
      case True
      with i ip pos child[of i] show ?thesis by simp
    next
      case False
      with i ip pos edge[of i] show ?thesis by simp
    qed
  qed
  have B: "fst newitem \<le> fst (?h ! c) \<and> (0 < ?pp \<longrightarrow> fst (?h ! ((?pp - 1) div 2)) \<le> fst (?h ! c))"
    if c: "0 < c" "c < length ?h" "(c - 1) div 2 = ?pp" for c
  proof -
    have gp: "fst (h ! ((?pp - 1) div 2)) \<le> fst (h ! ?pp)" if "0 < ?pp"
    proof -
      have "(?pp - 1) div 2 \<noteq> pos" using pp by arith
      with edge[of ?pp] that pp pos show ?thesis by simp
    qed
    have gpne: "(?pp - 1) div 2 \<noteq> pos" using pp by arith
    show ?thesis
    proof (cases "c = pos")
      case True
      with pos assms(3) gp gpne show ?thesis by simp
    next
      case False
      have "(c - 1) div 2 \<noteq> pos" using c(3) pp by simp
      with edge[of c] c False have "fst (h ! ?pp) \<le> fst (h ! c)" by simp
      with False assms(3) gp gpne show ?thesis by (auto simp: nth_list_update)
    qed
  qed
  have len: "?pp < length ?h" using pp pos by simp
  show ?thesis unfolding hole_inv_def using len A B by blast
qed

lemma siftdown_loop_correct:
  assumes "score_inj S" and "set h \<subseteq> S" and "newitem \<in> S" and "hole_inv h newitem pos"
  shows "\<exists>h'. siftdown_loop h 0 newitem pos = Inr h' \<and> heap_inv h' \<and>
     mset h' = mset (h[pos := newitem])"
  using assms(2,3,4)
proof (induction h "0 :: nat" newitem pos rule: siftdown_loop.induct)
  case (1 heap newitem pos)
  from "1.prems" have pos: "pos < length heap" by (simp add: hole_inv_def)
  show ?case
  proof (cases "0 < pos")
    case False
    with hole_fill[OF "1.prems"(3)] show ?thesis
      by (subst siftdown_loop.simps) simp
  next
    case True
    let ?pp = "(pos - 1) div 2"
    from True have pp: "?pp < pos" by arith
    from pp pos have "heap ! ?pp \<in> set heap" by (intro nth_mem) simp
    then have inS: "heap ! ?pp \<in> S" using "1.prems"(1) by blast
    have lt: "entry_lt newitem (heap ! ?pp) = Inr (fst newitem < fst (heap ! ?pp))"
      using entry_lt_total[OF assms(1) "1.prems"(2) inS] .
    show ?thesis
    proof (cases "fst newitem < fst (heap ! ?pp)")
      case less: True
      have hole': "hole_inv (heap[pos := heap ! ?pp]) newitem ?pp"
        using hole_up[OF "1.prems"(3) True less] .
      have sub': "set (heap[pos := heap ! ?pp]) \<subseteq> S"
        using "1.prems"(1) inS by (rule set_update_in)
      from "1.hyps"[OF True refl refl lt less sub' "1.prems"(2) hole']
      obtain h' where h': "siftdown_loop (heap[pos := heap ! ?pp]) 0 newitem ?pp = Inr h'"
        "heap_inv h'" "mset h' = mset (heap[pos := heap ! ?pp, ?pp := newitem])"
        by blast
      have "mset (heap[pos := heap ! ?pp, ?pp := newitem]) = mset (heap[pos := newitem])"
        using pos pp by (intro mset_update_swap) simp_all
      with h' have "siftdown_loop heap 0 newitem pos = Inr h' \<and> heap_inv h' \<and>
          mset h' = mset (heap[pos := newitem])"
        using True lt less by (subst siftdown_loop.simps) (simp add: Let_def)
      then show ?thesis by blast
    next
      case False
      then have "0 < pos \<longrightarrow> fst (heap ! ?pp) \<le> fst newitem" by simp
      from hole_fill[OF "1.prems"(3) this] True lt False show ?thesis
        by (subst siftdown_loop.simps) (simp add: Let_def)
    qed
  qed
qed

lemma down_step:
  assumes "down_inv h pos" and "c < length h" and "c = 2 * pos + 1 \<or> c = 2 * pos + 2"
    and "\<forall>d. d < length h \<and> (d = 2 * pos + 1 \<or> d = 2 * pos + 2) \<longrightarrow> fst (h ! c) \<le> fst (h ! d)"
  shows "down_inv (h[pos := h ! c]) c"
proof -
  let ?h = "h[pos := h ! c]"
  from assms(1) have pos: "pos < length h" by (simp add: down_inv_def)
  from assms(3) have cp: "(c - 1) div 2 = pos" "0 < c" "c \<noteq> pos" by arith+
  have edge: "fst (h ! ((i - 1) div 2)) \<le> fst (h ! i)"
    if "0 < i" "i < length h" "(i - 1) div 2 \<noteq> pos" for i
    using assms(1) that by (simp add: down_inv_def)
  have gchild: "fst (h ! ((pos - 1) div 2)) \<le> fst (h ! d)"
    if "0 < d" "d < length h" "(d - 1) div 2 = pos" "0 < pos" for d
    using assms(1) that by (simp add: down_inv_def)
  have A: "fst (?h ! ((i - 1) div 2)) \<le> fst (?h ! i)"
    if i: "0 < i" "i < length ?h" "(i - 1) div 2 \<noteq> c" for i
  proof -
    consider "i = pos" | "i \<noteq> pos" "(i - 1) div 2 = pos" | "i \<noteq> pos" "(i - 1) div 2 \<noteq> pos"
      by blast
    then show ?thesis
    proof cases
      case 1
      with i have ne: "(i - 1) div 2 \<noteq> pos" by arith
      from gchild[of c] cp assms(2) 1 i have "fst (h ! ((pos - 1) div 2)) \<le> fst (h ! c)" by simp
      with 1 pos ne show ?thesis by simp
    next
      case 2
      with i have "i = 2 * pos + 1 \<or> i = 2 * pos + 2" by arith
      with assms(4) i have "fst (h ! c) \<le> fst (h ! i)" by simp
      with 2 pos show ?thesis by simp
    next
      case 3
      with i edge[of i] show ?thesis by simp
    qed
  qed
  have B: "fst (?h ! ((c - 1) div 2)) \<le> fst (?h ! d)"
    if d: "0 < d" "d < length ?h" "(d - 1) div 2 = c" "0 < c" for d
  proof -
    from d cp have dne: "d \<noteq> pos" "(d - 1) div 2 \<noteq> pos" by arith+
    with edge[of d] d have "fst (h ! c) \<le> fst (h ! d)" by simp
    with dne cp pos show ?thesis by simp
  qed
  have len: "c < length ?h" using assms(2) by simp
  show ?thesis unfolding down_inv_def using len A B by blast
qed

lemma down_leaf: "down_inv h pos \<Longrightarrow> length h \<le> 2 * pos + 1 \<Longrightarrow> heap_inv h"
  unfolding down_inv_def heap_inv_def
proof (intro allI impI)
  fix i
  assume a: "pos < length h \<and>
      (\<forall>i. 0 < i \<and> i < length h \<and> (i - 1) div 2 \<noteq> pos \<longrightarrow>
           fst (h ! ((i - 1) div 2)) \<le> fst (h ! i)) \<and>
      (\<forall>c. 0 < c \<and> c < length h \<and> (c - 1) div 2 = pos \<and> 0 < pos \<longrightarrow>
           fst (h ! ((pos - 1) div 2)) \<le> fst (h ! c))"
    and len: "length h \<le> 2 * pos + 1" and i: "0 < i \<and> i < length h"
  from len i have "(i - 1) div 2 \<noteq> pos" by arith
  with a i show "fst (h ! ((i - 1) div 2)) \<le> fst (h ! i)" by blast
qed

lemma siftup_loop_correct:
  assumes "score_inj S"
  shows "set h \<subseteq> S \<Longrightarrow> down_inv h pos \<Longrightarrow>
     \<exists>h1 pos1. siftup_loop h pos = Inr (h1, pos1) \<and> heap_inv h1 \<and> pos1 < length h1 \<and>
        length h1 \<le> 2 * pos1 + 1 \<and> set h1 \<subseteq> S \<and>
        (\<forall>v. mset (h1[pos1 := v]) = mset (h[pos := v]))"
proof (induction "length h - pos" arbitrary: h pos rule: less_induct)
  case less
  from less.prems have pos: "pos < length h" by (simp add: down_inv_def)
  show ?case
  proof (cases "2 * pos + 1 < length h")
    case False
    then have len: "length h \<le> 2 * pos + 1" by simp
    have "siftup_loop h pos = Inr (h, pos)"
      using False by (subst siftup_loop.simps) (simp add: Let_def del: siftup_loop.simps)
    with down_leaf[OF less.prems(2) len] pos len less.prems(1) show ?thesis by simp
  next
    case left: True
    define c where "c = (if 2 * pos + 2 < length h \<and> \<not> fst (h ! (2 * pos + 1)) < fst (h ! (2 * pos + 2))
                         then 2 * pos + 2 else 2 * pos + 1)"
    have c: "c < length h" "c = 2 * pos + 1 \<or> c = 2 * pos + 2" "pos < c"
      using left by (auto simp: c_def)
    have cmin: "\<forall>d. d < length h \<and> (d = 2 * pos + 1 \<or> d = 2 * pos + 2) \<longrightarrow> fst (h ! c) \<le> fst (h ! d)"
      by (auto simp: c_def)
    have step: "siftup_loop h pos = siftup_loop (h[pos := h ! c]) c"
    proof (cases "2 * pos + 2 < length h")
      case True
      have "h ! (2 * pos + 1) \<in> S" "h ! (2 * pos + 2) \<in> S"
        using less.prems(1) left True by (auto intro: nth_in)
      from entry_lt_total[OF assms this]
      have lt: "entry_lt (h ! (2 * pos + 1)) (h ! (2 * pos + 2))
          = Inr (fst (h ! (2 * pos + 1)) < fst (h ! (2 * pos + 2)))" .
      show ?thesis
        using left True lt
        by (subst siftup_loop.simps) (simp add: Let_def c_def del: siftup_loop.simps)
    next
      case False
      show ?thesis
        using left False
        by (subst siftup_loop.simps) (simp add: Let_def c_def del: siftup_loop.simps)
    qed
    have inv': "down_inv (h[pos := h ! c]) c"
      using down_step[OF less.prems(2) c(1) c(2) cmin] .
    have "h ! c \<in> S" using less.prems(1) c(1) by (rule nth_in)
    then have sub': "set (h[pos := h ! c]) \<subseteq> S"
      using less.prems(1) by (intro set_update_in)
    have m: "length (h[pos := h ! c]) - c < length h - pos" using c pos by simp
    from less.hyps[OF m sub' inv'] obtain h1 pos1 where
      r: "siftup_loop (h[pos := h ! c]) c = Inr (h1, pos1)" "heap_inv h1" "pos1 < length h1"
        "length h1 \<le> 2 * pos1 + 1" "set h1 \<subseteq> S"
        "\<forall>v. mset (h1[pos1 := v]) = mset (h[pos := h ! c, c := v])"
      by blast
    have "mset (h[pos := h ! c, c := v]) = mset (h[pos := v])" for v
      using pos c by (intro mset_update_swap) simp_all
    with r step show ?thesis by simp
  qed
qed

lemma down_inv_root: "heap_inv h \<Longrightarrow> h \<noteq> [] \<Longrightarrow> down_inv (h[0 := v]) 0"
  unfolding heap_inv_def down_inv_def
proof (intro conjI allI impI)
  assume "h \<noteq> []" then show "0 < length (h[0 := v])" by simp
next
  fix i
  assume h: "\<forall>i. 0 < i \<and> i < length h \<longrightarrow> fst (h ! ((i - 1) div 2)) \<le> fst (h ! i)"
    and i: "0 < i \<and> i < length (h[0 := v]) \<and> (i - 1) div 2 \<noteq> 0"
  then show "fst (h[0 := v] ! ((i - 1) div 2)) \<le> fst (h[0 := v] ! i)" by simp
next
  fix c assume "0 < c \<and> c < length (h[0 := v]) \<and> (c - 1) div 2 = 0 \<and> (0 :: nat) < 0"
  then show "fst (h[0 := v] ! ((0 - 1) div 2)) \<le> fst (h[0 := v] ! c)" by simp
qed

lemma leaf_hole: "heap_inv h \<Longrightarrow> pos < length h \<Longrightarrow> length h \<le> 2 * pos + 1 \<Longrightarrow> hole_inv h v pos"
  unfolding heap_inv_def hole_inv_def
  by (intro conjI allI impI; (simp; fail | arith))

lemma siftup_correct:
  assumes "score_inj S" and "set h \<subseteq> S" and "down_inv h 0"
  shows "\<exists>h'. siftup h 0 = Inr h' \<and> heap_inv h' \<and> mset h' = mset h"
proof -
  from assms(3) have ne: "0 < length h" by (simp add: down_inv_def)
  then have inS: "h ! 0 \<in> S" using assms(2) by (auto intro: nth_in)
  from siftup_loop_correct[OF assms] obtain h1 pos1 where
    r: "siftup_loop h 0 = Inr (h1, pos1)" "heap_inv h1" "pos1 < length h1"
      "length h1 \<le> 2 * pos1 + 1" "set h1 \<subseteq> S"
      "\<forall>v. mset (h1[pos1 := v]) = mset (h[0 := v])"
    by blast
  have hole: "hole_inv h1 (h ! 0) pos1" using r(2,3,4) by (rule leaf_hole)
  from siftdown_loop_correct[OF assms(1) r(5) inS hole] obtain h' where
    h': "siftdown_loop h1 0 (h ! 0) pos1 = Inr h'" "heap_inv h'" "mset h' = mset (h1[pos1 := h ! 0])"
    by blast
  have "mset (h1[pos1 := h ! 0]) = mset h"
    using r(6)[rule_format, of "h ! 0"] by simp
  with r(1) h' show ?thesis by (simp add: siftup_def)
qed

lemma heap_min: "heap_inv h \<Longrightarrow> i < length h \<Longrightarrow> fst (h ! 0) \<le> fst (h ! i)"
proof (induction i rule: less_induct)
  case (less i)
  show ?case
  proof (cases "i = 0")
    case True
    then show ?thesis by simp
  next
    case False
    then have p: "(i - 1) div 2 < i" by arith
    with less.prems have "(i - 1) div 2 < length h" by simp
    from less.IH[OF p less.prems(1) this] have "fst (h ! 0) \<le> fst (h ! ((i - 1) div 2))" .
    moreover have "fst (h ! ((i - 1) div 2)) \<le> fst (h ! i)"
      using less.prems False by (simp add: heap_inv_def)
    ultimately show ?thesis by simp
  qed
qed

lemma heappush_correct:
  assumes "score_inj S" and "set h \<subseteq> S" and "item \<in> S" and "heap_inv h"
  shows "\<exists>h'. heappush h item = Inr h' \<and> heap_inv h' \<and> mset h' = add_mset item (mset h)"
proof -
  have hole: "hole_inv (h @ [item]) item (length h)"
    unfolding hole_inv_def
  proof (intro conjI allI impI)
    show "length h < length (h @ [item])" by simp
  next
    fix i
    assume i: "0 < i \<and> i < length (h @ [item]) \<and> i \<noteq> length h \<and> (i - 1) div 2 \<noteq> length h"
    then have "i < length h" "(i - 1) div 2 < length h" by auto
    with i assms(4) show "fst ((h @ [item]) ! ((i - 1) div 2)) \<le> fst ((h @ [item]) ! i)"
      by (simp add: nth_append heap_inv_def)
  next
    fix c
    assume c: "0 < c \<and> c < length (h @ [item]) \<and> (c - 1) div 2 = length h"
    then have False by simp arith
    then show "fst item \<le> fst ((h @ [item]) ! c)" ..
  next
    fix c
    assume c: "0 < c \<and> c < length (h @ [item]) \<and> (c - 1) div 2 = length h"
    then have False by simp arith
    then show "fst ((h @ [item]) ! ((length h - 1) div 2)) \<le> fst ((h @ [item]) ! c)" ..
  qed
  have sub: "set (h @ [item]) \<subseteq> S" using assms(2,3) by simp
  from siftdown_loop_correct[OF assms(1) sub assms(3) hole] obtain h' where
    "siftdown_loop (h @ [item]) 0 item (length h) = Inr h'" "heap_inv h'"
    "mset h' = mset ((h @ [item])[length h := item])"
    by blast
  then show ?thesis by (simp add: heappush_def siftdown_def)
qed

lemma heappushpop_correct:
  assumes "score_inj S" and "set h \<subseteq> S" and "item \<in> S" and "heap_inv h"
  shows "\<exists>out h'. heappushpop h item = Inr (out, h') \<and> heap_inv h' \<and>
     (if h \<noteq> [] \<and> fst (h ! 0) < fst item then mset h' = add_mset item (mset h - {#h ! 0#})
      else h' = h)"
proof (cases "h = []")
  case True
  with assms(4) show ?thesis by (simp add: heappushpop_def)
next
  case False
  then have inS: "h ! 0 \<in> S" using assms(2) by (auto intro: nth_in)
  have lt: "entry_lt (h ! 0) item = Inr (fst (h ! 0) < fst item)"
    using entry_lt_total[OF assms(1) inS assms(3)] .
  show ?thesis
  proof (cases "fst (h ! 0) < fst item")
    case less: True
    have sub: "set (h[0 := item]) \<subseteq> S" using assms(2,3) by (rule set_update_in)
    from siftup_correct[OF assms(1) sub down_inv_root[OF assms(4) False]] obtain h' where
      h': "siftup (h[0 := item]) 0 = Inr h'" "heap_inv h'" "mset h' = mset (h[0 := item])"
      by blast
    have "mset (h[0 := item]) = add_mset item (mset h - {#h ! 0#})"
      using False by (simp add: mset_update)
    with h' False lt less show ?thesis by (simp add: heappushpop_def)
  next
    case False
    with \<open>h \<noteq> []\<close> lt assms(4) show ?thesis by (simp add: heappushpop_def)
  qed
qed

lemma mset_sort_desc: "mset (sort_desc es) = mset es"
  by (simp add: sort_desc_def)

lemma sort_desc_sorted: "sorted_wrt (\<lambda>a b. b \<le> a) (map fst (sort_desc es))"
proof -
  have "sorted (map fst (sort_key fst (rev es)))" by simp
  then show ?thesis
    by (simp add: sort_desc_def rev_map[symmetric] sorted_wrt_rev)
qed

lemma score_inj_subset: "score_inj S \<Longrightarrow> T \<subseteq> S \<Longrightarrow> score_inj T"
  by (auto simp: score_inj_def)

lemma desc_unique:
  assumes "sorted_wrt (\<lambda>a b. b \<le> a) (map fst as)" and "sorted_wrt (\<lambda>a b. b \<le> a) (map fst bs)"
    and "mset as = mset bs" and "score_inj (set as)"
  shows "as = bs"
proof -
  have sa: "sorted (rev (map fst as))" and sb: "sorted (rev (map fst bs))"
    using assms(1,2) by (simp_all add: sorted_wrt_rev)
  have "mset (rev (map fst as)) = mset (rev (map fst bs))"
    using assms(3) by (metis mset_map mset_rev)
  with sa sb have "rev (map fst as) = rev (map fst bs)"
    by (metis properties_for_sort)
  then have eq: "map fst as = map fst bs" by simp
  have "set bs = set as" using assms(3) by (metis mset_eq_setD)
  with assms(4) have "inj_on fst (set as \<union> set bs)"
    by (auto simp: score_inj_def inj_on_def)
  with eq show ?thesis by (simp add: inj_on_map_eq_map)
qed

lemma topk_inv_best:
  assumes "topk_inv K heap (mset es)" and "score_inj (set es)"
  shows "sort_desc heap = take K (sort_desc es)"
proof -
  from assms(1) obtain R where R: "mset heap + R = mset es"
    "\<forall>b\<in>set heap. \<forall>r\<in>#R. fst r \<le> fst b" "length heap = K \<or> R = {#} \<and> length heap < K"
    by (auto simp: topk_inv_def)
  obtain rs where rs: "mset rs = R" using ex_mset by blast
  let ?L = "sort_desc heap @ sort_desc rs"
  have cross: "\<forall>x\<in>set (map fst (sort_desc heap)). \<forall>y\<in>set (map fst (sort_desc rs)). y \<le> x"
  proof (intro ballI)
    fix x y assume "x \<in> set (map fst (sort_desc heap))" "y \<in> set (map fst (sort_desc rs))"
    then obtain b r where "b \<in> set (sort_desc heap)" "x = fst b" "r \<in> set (sort_desc rs)" "y = fst r"
      by auto
    moreover have "set (sort_desc heap) = set heap" "set (sort_desc rs) = set_mset R"
      using mset_sort_desc[of heap] mset_sort_desc[of rs] rs by (metis set_mset_mset)+
    ultimately show "y \<le> x" using R(2) by auto
  qed
  have sortedL: "sorted_wrt (\<lambda>a b. b \<le> a) (map fst ?L)"
    using sort_desc_sorted[of heap] sort_desc_sorted[of rs] cross
    by (simp add: sorted_wrt_append)
  have msetL: "mset ?L = mset (sort_desc es)"
    using R(1) rs by (simp add: mset_sort_desc)
  have "set ?L = set es" using msetL by (metis mset_eq_setD mset_sort_desc)
  with assms(2) have injL: "score_inj (set ?L)" by simp
  have L: "?L = sort_desc es"
    using desc_unique[OF sortedL sort_desc_sorted msetL injL] .
  have lenh: "length (sort_desc heap) = length heap"
    by (simp add: sort_desc_def)
  from R(3) show ?thesis
  proof
    assume "length heap = K"
    with L[symmetric] lenh show ?thesis by simp
  next
    assume "R = {#} \<and> length heap < K"
    with rs have "rs = []" "length heap < K" by auto
    with L[symmetric] lenh show ?thesis by (simp add: sort_desc_def)
  qed
qed

lemma topk_inv_push:
  assumes "topk_inv K heap X" and "length heap < K" and "mset h' = add_mset x (mset heap)"
  shows "topk_inv K h' (add_mset x X)"
proof -
  from assms(1,2) have X: "mset heap = X"
    by (auto simp: topk_inv_def)
  have "length h' = Suc (length heap)" using assms(3) by (metis size_mset size_add_mset)
  with assms(2) have "length h' = K \<or> length h' < K" by arith
  with X assms(3) show ?thesis
    unfolding topk_inv_def by (intro exI[of _ "{#}"]) simp
qed

lemma topk_inv_pushpop:
  assumes "topk_inv K heap X" and "\<not> length heap < K" and "heap_inv heap"
    and "if heap \<noteq> [] \<and> fst (heap ! 0) < fst x then mset h' = add_mset x (mset heap - {#heap ! 0#})
         else h' = heap"
  shows "topk_inv K h' (add_mset x X)"
proof -
  from assms(1,2) obtain R where R: "mset heap + R = X"
    "\<forall>b\<in>set heap. \<forall>r\<in>#R. fst r \<le> fst b" "length heap = K"
    by (auto simp: topk_inv_def)
  have minh: "fst (heap ! 0) \<le> fst b" if "b \<in> set heap" for b
    using that heap_min[OF assms(3)] by (auto simp: in_set_conv_nth)
  show ?thesis
  proof (cases "heap \<noteq> [] \<and> fst (heap ! 0) < fst x")
    case True
    let ?m = "heap ! 0"
    from True have m: "?m \<in># mset heap" by simp
    from True assms(4) have h': "mset h' = add_mset x (mset heap - {#?m#})" by simp
    have len: "length h' = K"
      using h' m R(3) by (metis size_mset size_add_mset size_Diff_singleton Suc_pred' length_greater_0_conv True)
    have sub: "set h' \<subseteq> insert x (set heap)"
    proof -
      have "set_mset (mset h') \<subseteq> insert x (set_mset (mset heap))"
        unfolding h' by (auto dest: in_diffD)
      then show ?thesis by simp
    qed
    have "add_mset ?m (mset heap - {#?m#}) = mset heap"
      using m by (rule insert_DiffM)
    then have "mset h' + add_mset ?m R = add_mset x (mset heap + R)"
      unfolding h' by simp
    then have "mset h' + add_mset ?m R = add_mset x X"
      using R(1) by simp
    moreover have "\<forall>b\<in>set h'. \<forall>r\<in>#add_mset ?m R. fst r \<le> fst b"
    proof (intro ballI)
      fix b r assume b: "b \<in> set h'" and r: "r \<in># add_mset ?m R"
      from r have rm: "fst r \<le> fst ?m" using R(2) m by auto
      from b sub have "b = x \<or> b \<in> set heap" by auto
      then show "fst r \<le> fst b"
      proof
        assume "b = x"
        with rm True show ?thesis by simp
      next
        assume "b \<in> set heap"
        from minh[OF this] rm show ?thesis by simp
      qed
    qed
    ultimately show ?thesis
      unfolding topk_inv_def using len by blast
  next
    case False
    with assms(4) have h': "h' = heap" by simp
    have le: "fst x \<le> fst b" if "b \<in> set heap" for b
    proof -
      from that have "heap \<noteq> []" by auto
      with False have "fst x \<le> fst (heap ! 0)" by simp
      with minh[OF that] show ?thesis by simp
    qed
    have "mset h' + add_mset x R = add_mset x X" using h' R(1) by simp
    moreover have "\<forall>b\<in>set h'. \<forall>r\<in>#add_mset x R. fst r \<le> fst b"
      using h' R(2) le by auto
    ultimately show ?thesis
      unfolding topk_inv_def using R(3) h' by blast
  qed
qed

lemma set_from_mset_add:
  "mset h' = add_mset x (mset h) \<Longrightarrow> set h \<subseteq> S \<Longrightarrow> x \<in> S \<Longrightarrow> set h' \<subseteq> S"
  by (metis insert_subset set_mset_add_mset_insert set_mset_mset)

lemma set_from_mset_replace:
  assumes "mset h' = add_mset x (mset h - {#m#})" and "set h \<subseteq> S" and "x \<in> S"
  shows "set h' \<subseteq> S"
proof -
  have "set_mset (mset h') \<subseteq> insert x (set_mset (mset h))"
    unfolding assms(1) by (auto dest: in_diffD)
  with assms(2,3) show ?thesis by auto
qed

lemma process_batch_correct:
  assumes "score_inj S"
  shows "score_all now alg kw batch = Inr bes \<Longrightarrow> set bes \<subseteq> S \<Longrightarrow> set heap \<subseteq> S \<Longrightarrow>
     heap_inv heap \<Longrightarrow> topk_inv (nat top_k) heap X \<Longrightarrow>
     \<exists>h'. process_batch now alg top_k kw heap batch = Inr h' \<and> set h' \<subseteq> S \<and> heap_inv h' \<and>
        topk_inv (nat top_k) h' (X + mset bes)"
proof (induction batch arbitrary: heap X bes)
  case Nil
  then show ?case by simp
next
  case (Cons p rest)
  from Cons.prems(1) obtain s es' where s: "calculate_score now p alg kw = Inr s"
    and rest: "score_all now alg kw rest = Inr es'" and bes: "bes = (s, p) # es'"
    by (auto split: sum.splits)
  from Cons.prems(2) bes have inS: "(s, p) \<in> S" and sub': "set es' \<subseteq> S" by auto
  have cond: "(int (length heap) < top_k) = (length heap < nat top_k)" by arith
  have "\<exists>h1. (if int (length heap) < top_k then heappush heap (s, p)
               else map_sum id snd (heappushpop heap (s, p))) = Inr h1 \<and>
          set h1 \<subseteq> S \<and> heap_inv h1 \<and> topk_inv (nat top_k) h1 (add_mset (s, p) X)"
  proof (cases "length heap < nat top_k")
    case True
    from heappush_correct[OF assms Cons.prems(3) inS Cons.prems(4)] obtain h1 where
      h1: "heappush heap (s, p) = Inr h1" "heap_inv h1" "mset h1 = add_mset (s, p) (mset heap)"
      by blast
    have "set h1 \<subseteq> S" using h1(3) Cons.prems(3) inS by (rule set_from_mset_add)
    moreover have "topk_inv (nat top_k) h1 (add_mset (s, p) X)"
      using Cons.prems(5) True h1(3) by (rule topk_inv_push)
    ultimately show ?thesis using h1 True cond by auto
  next
    case False
    from heappushpop_correct[OF assms Cons.prems(3) inS Cons.prems(4)] obtain out h1 where
      h1: "heappushpop heap (s, p) = Inr (out, h1)" "heap_inv h1"
        "if heap \<noteq> [] \<and> fst (heap ! 0) < fst (s, p)
         then mset h1 = add_mset (s, p) (mset heap - {#heap ! 0#}) else h1 = heap"
      by blast
    have "set h1 \<subseteq> S"
    proof (cases "heap \<noteq> [] \<and> fst (heap ! 0) < fst (s, p)")
      case True
      with h1(3) have "mset h1 = add_mset (s, p) (mset heap - {#heap ! 0#})" by simp
      then show ?thesis using Cons.prems(3) inS by (rule set_from_mset_replace)
    next
      case False
      with h1(3) Cons.prems(3) show ?thesis by simp
    qed
    moreover have "topk_inv (nat top_k) h1 (add_mset (s, p) X)"
      using Cons.prems(5) False Cons.prems(4) h1(3) by (rule topk_inv_pushpop)
    ultimately show ?thesis using h1 False cond by auto
  qed
  then obtain h1 where step: "(if int (length heap) < top_k then heappush heap (s, p)
               else map_sum id snd (heappushpop heap (s, p))) = Inr h1"
    and h1: "set h1 \<subseteq> S" "heap_inv h1" "topk_inv (nat top_k) h1 (add_mset (s, p) X)"
    by blast
  from Cons.IH[OF rest sub' h1] obtain h' where
    h': "process_batch now alg top_k kw h1 rest = Inr h'" "set h' \<subseteq> S" "heap_inv h'"
      "topk_inv (nat top_k) h' (add_mset (s, p) X + mset es')"
    by blast
  have "process_batch now alg top_k kw heap (p # rest) = Inr h'"
    using s step h'(1) by (auto split: if_splits sum.splits)
  with h' bes show ?case by simp
qed

lemma process_batch_append:
  "process_batch now alg top_k kw heap (xs @ ys) =
     (case process_batch now alg top_k kw heap xs of
        Inl err \<Rightarrow> Inl err
      | Inr h \<Rightarrow> process_batch now alg top_k kw h ys)"
  by (induction xs arbitrary: heap) (auto split: sum.splits)

lemma stream_loop_correct:
  assumes "0 < batch_size self"
  shows "process_batch now alg top_k kw heap ps = Inr h \<Longrightarrow>
     \<exists>bc'. stream_loop self now alg top_k kw heap tot bc ps = Inr (h, tot + length ps, bc')"
proof (induction "length ps" arbitrary: heap tot bc ps rule: less_induct)
  case less
  let ?n = "nat (batch_size self)"
  let ?batch = "take ?n ps"
  from assms have n: "0 < ?n" by simp
  show ?case
  proof (cases "?batch = []")
    case True
    with n have ps: "ps = []" by (cases ps) auto
    with less.prems have "h = heap" by simp
    with ps show ?thesis
      by (subst stream_loop.simps) (simp del: stream_loop.simps)
  next
    case False
    have split: "ps = ?batch @ drop ?n ps" by simp
    from less.prems obtain h1 where h1: "process_batch now alg top_k kw heap ?batch = Inr h1"
      and h2: "process_batch now alg top_k kw h1 (drop ?n ps) = Inr h"
      using process_batch_append[of now alg top_k kw heap ?batch "drop ?n ps"]
      by (auto split: sum.splits)
    from False have "ps \<noteq> []" by auto
    with n have m: "length (drop ?n ps) < length ps" by simp
    from less.hyps[OF m h2, of "tot + length ?batch" "bc + 1"] obtain bc' where
      "stream_loop self now alg top_k kw h1 (tot + length ?batch) (bc + 1) (drop ?n ps)
         = Inr (h, tot + length ?batch + length (drop ?n ps), bc')"
      by blast
    moreover have "length ?batch + length (drop ?n ps) = length ps"
      by (metis split length_append)
    ultimately have "stream_loop self now alg top_k kw heap tot bc ps = Inr (h, tot + length ps, bc')"
      using False h1
      by (subst stream_loop.simps) (simp add: Let_def add.assoc del: stream_loop.simps)
    then show ?thesis by blast
  qed
qed

lemma comparable_all:
  assumes "score_inj (set h)"
  shows "list_all (\<lambda>a. list_all (comparable a) h) h"
  using assms by (auto simp: list_all_iff comparable_def score_inj_def)

text \<open>
  When the sequence can be scored and no two different posts of it have the same score,
  the selector returns the first \<open>top_k\<close> entries of the full sequence sorted in
  descending order of score, counts every post, and does so for every batch size of at
  least one.
\<close>

lemma streaming_topk_correct:
  assumes "score_all now algorithm kwargs ps = Inr es" and "score_inj (set es)"
    and "0 < batch_size self"
  shows "rank_posts_streaming self now ps algorithm top_k kwargs =
     Inr \<lparr>top_posts = take (nat top_k) (sort_desc es), total_posts_processed = length ps,
          res_algorithm = algorithm, res_batch_size = batch_size self\<rparr>"
proof -
  have init: "topk_inv (nat top_k) [] {#}"
    by (auto simp: topk_inv_def)
  have hinit: "heap_inv []" by (simp add: heap_inv_def)
  from process_batch_correct[OF assms(2) assms(1) subset_refl _ hinit init]
  obtain h where h: "process_batch now algorithm top_k kwargs [] ps = Inr h"
    "set h \<subseteq> set es" "topk_inv (nat top_k) h ({#} + mset es)"
    by auto
  from stream_loop_correct[OF assms(3) h(1), of 0 0] obtain bc' where
    loop: "stream_loop self now algorithm top_k kwargs [] 0 0 ps = Inr (h, length ps, bc')"
    by auto
  have inj: "score_inj (set h)" using assms(2) h(2) by (rule score_inj_subset)
  have sr: "sorted_reverse h = Inr (sort_desc h)"
    using comparable_all[OF inj] by (simp add: sorted_reverse_def sort_desc_def)
  have "sort_desc h = take (nat top_k) (sort_desc es)"
    using h(3) assms(2) by (intro topk_inv_best) simp_all
  with loop sr show ?thesis by (simp add: rank_posts_streaming_def)
qed

text \<open>
  For example, three posts of scores 10, 30 and 20 read in batches of two, with
  \<open>top_k = 2\<close>.
\<close>

lemma streaming_topk_example:
  "map (post_id \<circ> snd) (top_posts (projr (rank_posts_streaming (StreamingRankingEngine 2 1000) 0
      [Post 0 ''a'' (no_kwargs\<lparr>kw_likes := Some 10\<rparr>), Post 0 ''b'' (no_kwargs\<lparr>kw_likes := Some 30\<rparr>),
       Post 0 ''c'' (no_kwargs\<lparr>kw_likes := Some 20\<rparr>)]
      ''engagement_score'' 2 no_params))) = [''b'', ''c'']"
proof -
  let ?a = "Post 0 ''a'' (no_kwargs\<lparr>kw_likes := Some 10\<rparr>)"
  let ?b = "Post 0 ''b'' (no_kwargs\<lparr>kw_likes := Some 30\<rparr>)"
  let ?c = "Post 0 ''c'' (no_kwargs\<lparr>kw_likes := Some 20\<rparr>)"
  have sc: "score_all 0 ''engagement_score'' no_params [?a, ?b, ?c] = Inr [(10, ?a), (30, ?b), (20, ?c)]"
    by (simp add: calculate_score_def engagement_score_def Post_def post_init_def Post_fields_def
        no_kwargs_def get_default_def)
  have inj: "score_inj (set [(10, ?a), (30, ?b), (20, ?c)])"
    by (simp add: score_inj_def)
  have bs: "0 < batch_size (StreamingRankingEngine 2 1000)"
    by (simp add: StreamingRankingEngine_def)
  have sd: "sort_desc [(10, ?a), (30, ?b), (20, ?c)] = [(30, ?b), (20, ?c), (10, ?a)]"
    by (simp add: sort_desc_def)
  have ids: "map (post_id \<circ> snd) [(30 :: real, ?b), (20, ?c)] = [''b'', ''c'']"
    by (simp add: Post_def post_init_def Post_fields_def)
  have "top_posts (projr (rank_posts_streaming (StreamingRankingEngine 2 1000) 0 [?a, ?b, ?c]
      ''engagement_score'' 2 no_params)) = [(30, ?b), (20, ?c)]"
    unfolding streaming_topk_correct[OF sc inj bs, of 2] sd by simp
  then show ?thesis
    using ids by simp
qed

end
